theory Spec2Isabelle
  imports Main
begin

section \<open>Strings\<close>

abbreviation newline :: char where
  "newline \<equiv> CHR 0x0A"

text \<open>Python's \<open>s.startswith(p)\<close>.\<close>

fun startswith :: "string \<Rightarrow> string \<Rightarrow> bool" where
  "startswith s [] = True"
| "startswith [] (p # ps) = False"
| "startswith (c # cs) (p # ps) = (c = p \<and> startswith cs ps)"

text \<open>Python's \<open>a or b\<close> on a regex group (\<open>None\<close> and the empty string are false).\<close>

definition py_or :: "string option \<Rightarrow> string option \<Rightarrow> string option" where
  "py_or a b = (case a of None \<Rightarrow> b | Some [] \<Rightarrow> b | Some (c # cs) \<Rightarrow> a)"

text \<open>\<open>s.replace(' ', '')\<close>.\<close>

definition remove_spaces :: "string \<Rightarrow> string" where
  "remove_spaces s = filter (\<lambda>c. c \<noteq> CHR '' '') s"

section \<open>Text spans\<close>

text \<open>
  Class \<open>Text\<close>: the attributes \<open>text\<close>, \<open>bold\<close> and \<open>italic\<close> are set by the
  constructor; \<open>href\<close> exists only on spans that carry a link.
\<close>

record Text =
  s_text :: string
  bold :: bool
  italic :: bool
  href :: "string option"

definition Text_init :: "string \<Rightarrow> Text" where
  "Text_init t = \<lparr>s_text = t, bold = False, italic = False, href = None\<rparr>"

text \<open>
  \<open>Text.mergeWith\<close>: every attribute of \<open>other\<close> is or-ed into \<open>self\<close> when
  \<open>self\<close> has it, and copied otherwise.
\<close>

definition mergeWith :: "Text \<Rightarrow> Text \<Rightarrow> Text" where
  "mergeWith self other =
     \<lparr>s_text = (if s_text self \<noteq> [] then s_text self else s_text other),
      bold = (bold self \<or> bold other),
      italic = (italic self \<or> italic other),
      href = (case href other of
                None \<Rightarrow> href self
              | Some v \<Rightarrow> (case href self of
                            None \<Rightarrow> Some v
                          | Some h \<Rightarrow> Some (if h \<noteq> [] then h else v)))\<rparr>"

section \<open>The regular expression of parseText\<close>

text \<open>
  \<open>(.*)\<close> followed by the closing marker \<open>m\<close>: the dot takes no newline, the star is
  greedy, so the longest run is tried first and the group ends at the last
  occurrence of \<open>m\<close> on the first line.
\<close>

fun greedy_dots :: "string \<Rightarrow> string \<Rightarrow> string option" where
  "greedy_dots m [] = (if startswith [] m then Some [] else None)"
| "greedy_dots m (c # cs) =
     (case (if c \<noteq> newline then greedy_dots m cs else None) of
        Some g \<Rightarrow> Some (c # g)
      | None \<Rightarrow> if startswith (c # cs) m then Some [] else None)"

text \<open>One of \<open>__(.*)__\<close>, \<open>~~(.*)~~\<close>, \<open>\*\*(.*)\*\*\<close>: the group, if the alternative matches.\<close>

definition formatting :: "string \<Rightarrow> string \<Rightarrow> string option" where
  "formatting m s = (if startswith s m then greedy_dots m (drop (length m) s) else None)"

text \<open>\<open>\[\[([^\|]*)\|([^\]]*)\]\]\<close>: both groups, if the alternative matches.\<close>

definition link_piped :: "string \<Rightarrow> (string \<times> string) option" where
  "link_piped s =
     (if startswith s ''[['' then
        (let r = drop 2 s;
             h = takeWhile (\<lambda>c. c \<noteq> CHR ''|'') r
         in case dropWhile (\<lambda>c. c \<noteq> CHR ''|'') r of
              [] \<Rightarrow> None
            | bar # r2 \<Rightarrow>
                (let t = takeWhile (\<lambda>c. c \<noteq> CHR '']'') r2
                 in if startswith (dropWhile (\<lambda>c. c \<noteq> CHR '']'') r2) '']]''
                    then Some (h, t) else None))
      else None)"

text \<open>\<open>\[\[([^\]]*)\]\]\<close>.\<close>

definition link_bare :: "string \<Rightarrow> string option" where
  "link_bare s =
     (if startswith s ''[['' then
        (let r = drop 2 s;
             t = takeWhile (\<lambda>c. c \<noteq> CHR '']'') r
         in if startswith (dropWhile (\<lambda>c. c \<noteq> CHR '']'') r) '']]''
            then Some t else None)
      else None)"

text \<open>
  The lookahead \<open>(?=\*\*|__|~~|\[\[|$)\<close>; without the MULTILINE flag \<open>$\<close> holds at
  the end of the string and before a newline that ends it.
\<close>

definition lookahead :: "string \<Rightarrow> bool" where
  "lookahead s = (startswith s ''**'' \<or> startswith s ''__'' \<or> startswith s ''~~''
                  \<or> startswith s ''[['' \<or> s = [] \<or> s = [newline])"

text \<open>\<open>(.*?(?=...))\<close>: the lazy star stops at the first position where the lookahead holds.\<close>

fun lazy_dots :: "string \<Rightarrow> string option" where
  "lazy_dots [] = (if lookahead [] then Some [] else None)"
| "lazy_dots (c # cs) =
     (if lookahead (c # cs) then Some []
      else if c \<noteq> newline then map_option ((#) c) (lazy_dots cs)
      else None)"

text \<open>
  A match object: \<open>group0\<close> is \<open>match.group(0)\<close>, the other fields are
  \<open>match.groups()\<close> under the names parseText unpacks them to.
\<close>

record re_match =
  group0 :: string
  g_bold :: "string option"
  g_italic :: "string option"
  g_both :: "string option"
  g_linkHref :: "string option"
  g_linkText :: "string option"
  g_onlyLinkText :: "string option"
  g_otherwise :: "string option"

definition no_groups :: "string \<Rightarrow> re_match" where
  "no_groups whole =
     \<lparr>group0 = whole, g_bold = None, g_italic = None, g_both = None, g_linkHref = None,
      g_linkText = None, g_onlyLinkText = None, g_otherwise = None\<rparr>"

text \<open>
  \<open>re.match(regex, text)\<close>: the alternatives are tried in the order of the pattern,
  the first that matches at position 0 wins. The unpacking of line 305 names group 1
  (\<open>__\<close>) bold, group 2 (\<open>~~\<close>) italic and group 3 (\<open>**\<close>) both.
\<close>

definition re_match_regex :: "string \<Rightarrow> re_match option" where
  "re_match_regex s =
     (case formatting ''__'' s of
        Some g \<Rightarrow> Some ((no_groups (''__'' @ g @ ''__''))\<lparr>g_bold := Some g\<rparr>)
      | None \<Rightarrow>
     (case formatting ''~~'' s of
        Some g \<Rightarrow> Some ((no_groups (''~~'' @ g @ ''~~''))\<lparr>g_italic := Some g\<rparr>)
      | None \<Rightarrow>
     (case formatting ''**'' s of
        Some g \<Rightarrow> Some ((no_groups (''**'' @ g @ ''**''))\<lparr>g_both := Some g\<rparr>)
      | None \<Rightarrow>
     (case link_piped s of
        Some (h, t) \<Rightarrow>
          Some ((no_groups (''[['' @ h @ ''|'' @ t @ '']]''))
                  \<lparr>g_linkHref := Some h, g_linkText := Some t\<rparr>)
      | None \<Rightarrow>
     (case link_bare s of
        Some t \<Rightarrow> Some ((no_groups (''[['' @ t @ '']]''))\<lparr>g_onlyLinkText := Some t\<rparr>)
      | None \<Rightarrow>
     (case lazy_dots s of
        Some g \<Rightarrow> Some ((no_groups g)\<lparr>g_otherwise := Some g\<rparr>)
      | None \<Rightarrow> None))))))"

section \<open>Parser.parseText\<close>

text \<open>
  Lines 308 to 324: the span built from one match, if \<open>matchText\<close> is not \<open>None\<close>.
\<close>

definition matchText :: "re_match \<Rightarrow> string option" where
  "matchText m =
     py_or (g_bold m) (py_or (g_italic m) (py_or (g_both m) (py_or (g_linkText m)
       (py_or (g_onlyLinkText m) (py_or (g_otherwise m) None)))))"

definition span_of_match :: "re_match \<Rightarrow> string \<Rightarrow> Text" where
  "span_of_match m mt =
     (let t0 = Text_init mt;
          t1 = t0\<lparr>bold := (g_bold m \<noteq> None)\<rparr>;
          t2 = t1\<lparr>italic := (g_italic m \<noteq> None)\<rparr>;
          t3 = (if \<not> (bold t2 \<or> italic t2)
                then t2\<lparr>bold := (g_both m \<noteq> None), italic := (g_both m \<noteq> None)\<rparr>
                else t2)
      in case py_or (g_linkHref m) (g_onlyLinkText m) of
           None \<Rightarrow> t3
         | Some h \<Rightarrow> t3\<lparr>href := Some (if h = ''#'' then h @ remove_spaces (s_text t3) else h)\<rparr>)"

text \<open>
  The \<open>while text:\<close> loop. It leaves either through \<open>return result\<close> (no match) or
  by falling out of the loop (text exhausted, or the \<open>break\<close> on an empty match).
\<close>

datatype loop_exit = ReturnResult "Text list" | LoopEnd "Text list"

function scan :: "string \<Rightarrow> Text list \<Rightarrow> loop_exit" where
  "scan txt result =
     (if txt = [] then LoopEnd result
      else case re_match_regex txt of
             None \<Rightarrow> ReturnResult result
           | Some m \<Rightarrow>
               (let result' = (case matchText m of
                                 None \<Rightarrow> result
                               | Some mt \<Rightarrow> result @ [span_of_match m mt])
                in if group0 m = [] then LoopEnd result'
                   else scan (drop (length (group0 m)) txt) result'))"
  by pat_completeness auto
termination
  by (relation "measure (\<lambda>(txt, result). length txt)") auto

declare scan.simps [simp del]

subsection \<open>Every span text is a proper part of the input, or the input itself\<close>

lemma startswith_append: "startswith s m \<Longrightarrow> \<exists>r. s = m @ r"
  by (induction s m rule: startswith.induct) auto

lemma greedy_dots_length: "greedy_dots m s = Some g \<Longrightarrow> length g + length m \<le> length s"
proof (induction s arbitrary: g)
  case Nil
  then show ?case by (cases m) (auto split: if_splits)
next
  case (Cons c cs)
  show ?case
  proof (cases "if c \<noteq> newline then greedy_dots m cs else None")
    case None
    with Cons.prems have "startswith (c # cs) m" and "g = []"
      by (auto split: if_splits)
    then show ?thesis using startswith_append by fastforce
  next
    case (Some g')
    with Cons.prems have g: "g = c # g'" by simp
    from Some have "greedy_dots m cs = Some g'" by (auto split: if_splits)
    from Cons.IH[OF this] g show ?thesis by simp
  qed
qed

lemma lazy_dots_prefix: "lazy_dots s = Some g \<Longrightarrow> g = take (length g) s \<and> length g \<le> length s"
proof (induction s arbitrary: g)
  case Nil
  then show ?case by (auto split: if_splits)
next
  case (Cons c cs)
  then show ?case by (auto split: if_splits)
qed

lemma formatting_length:
  assumes "formatting m s = Some g" and "m \<noteq> []"
  shows "length g < length s"
proof -
  from assms(1) have sw: "startswith s m" and g: "greedy_dots m (drop (length m) s) = Some g"
    unfolding formatting_def by (auto split: if_splits)
  from greedy_dots_length[OF g] assms(2) show ?thesis by (cases m) auto
qed

lemma link_piped_length: "link_piped s = Some (h, t) \<Longrightarrow> length t < length s"
proof -
  assume a: "link_piped s = Some (h, t)"
  then obtain bar r2 where d: "dropWhile (\<lambda>c. c \<noteq> CHR ''|'') (drop 2 s) = bar # r2"
    and t: "t = takeWhile (\<lambda>c. c \<noteq> CHR '']'') r2"
    unfolding link_piped_def Let_def by (auto split: if_splits list.splits)
  have "length r2 < length (dropWhile (\<lambda>c. c \<noteq> CHR ''|'') (drop 2 s))" using d by simp
  also have "\<dots> \<le> length (drop 2 s)" by (rule length_dropWhile_le)
  finally have "length r2 < length s" by simp
  moreover have "length t \<le> length r2" unfolding t by (rule length_takeWhile_le)
  ultimately show ?thesis by simp
qed

lemma link_bare_length: "link_bare s = Some t \<Longrightarrow> length t < length s"
proof -
  assume a: "link_bare s = Some t"
  then have sw: "startswith s ''[[''" and t: "t = takeWhile (\<lambda>c. c \<noteq> CHR '']'') (drop 2 s)"
    unfolding link_bare_def Let_def by (auto split: if_splits)
  from sw obtain r where "s = ''[['' @ r" using startswith_append by blast
  then have "length (drop 2 s) < length s" by simp
  moreover have "length t \<le> length (drop 2 s)" unfolding t by (rule length_takeWhile_le)
  ultimately show ?thesis by simp
qed

lemma re_match_regex_cases:
  assumes "re_match_regex t = Some m"
  obtains
    (bold) g where "formatting ''__'' t = Some g"
      and "m = (no_groups (''__'' @ g @ ''__''))\<lparr>g_bold := Some g\<rparr>"
  | (italic) g where "formatting ''__'' t = None" and "formatting ''~~'' t = Some g"
      and "m = (no_groups (''~~'' @ g @ ''~~''))\<lparr>g_italic := Some g\<rparr>"
  | (both) g where "formatting ''__'' t = None" and "formatting ''~~'' t = None"
      and "formatting ''**'' t = Some g"
      and "m = (no_groups (''**'' @ g @ ''**''))\<lparr>g_both := Some g\<rparr>"
  | (piped) h d where "formatting ''__'' t = None" and "formatting ''~~'' t = None"
      and "formatting ''**'' t = None" and "link_piped t = Some (h, d)"
      and "m = (no_groups (''[['' @ h @ ''|'' @ d @ '']]''))\<lparr>g_linkHref := Some h, g_linkText := Some d\<rparr>"
  | (bare) d where "formatting ''__'' t = None" and "formatting ''~~'' t = None"
      and "formatting ''**'' t = None" and "link_piped t = None" and "link_bare t = Some d"
      and "m = (no_groups (''[['' @ d @ '']]''))\<lparr>g_onlyLinkText := Some d\<rparr>"
  | (otherwise) g where "formatting ''__'' t = None" and "formatting ''~~'' t = None"
      and "formatting ''**'' t = None" and "link_piped t = None" and "link_bare t = None"
      and "lazy_dots t = Some g"
      and "m = (no_groups g)\<lparr>g_otherwise := Some g\<rparr>"
  using assms unfolding re_match_regex_def
  by (auto split: option.splits)

lemma py_or_None [simp]: "py_or None b = b"
  by (simp add: py_or_def)

lemma py_or_Some_eq: "py_or (Some x) None = Some y \<Longrightarrow> x = y"
  by (auto simp: py_or_def split: list.splits)

lemma matchText_bound:
  assumes "re_match_regex t = Some m" and "matchText m = Some mt"
  shows "length mt < length t \<or> (mt = t \<and> group0 m = t)"
  using assms(1)
proof (cases rule: re_match_regex_cases)
  case (bold g)
  with assms(2) have "mt = g" by (auto simp: matchText_def no_groups_def py_or_def split: list.splits)
  with bold formatting_length show ?thesis by fastforce
next
  case (italic g)
  with assms(2) have "mt = g" by (auto simp: matchText_def no_groups_def py_or_def split: list.splits)
  with italic formatting_length show ?thesis by fastforce
next
  case (both g)
  with assms(2) have "mt = g" by (auto simp: matchText_def no_groups_def py_or_def split: list.splits)
  with both formatting_length show ?thesis by fastforce
next
  case (piped h d)
  with assms(2) have "mt = d" by (auto simp: matchText_def no_groups_def py_or_def split: list.splits)
  with piped link_piped_length show ?thesis by fastforce
next
  case (bare d)
  with assms(2) have "mt = d" by (auto simp: matchText_def no_groups_def py_or_def split: list.splits)
  with bare link_bare_length show ?thesis by fastforce
next
  case (otherwise g)
  with assms(2) have mt: "mt = g" by (auto simp: matchText_def no_groups_def py_or_def split: list.splits)
  from lazy_dots_prefix[OF otherwise(6)] have "g = take (length g) t" "length g \<le> length t" by auto
  then have "length g < length t \<or> g = t" by (metis le_neq_implies_less take_all order_refl)
  with mt otherwise(7) show ?thesis by (auto simp: no_groups_def)
qed

lemma scan_bound:
  "scan t acc = LoopEnd res \<Longrightarrow>
   \<forall>r \<in> set res. r \<in> set acc \<or> length (s_text r) < length t \<or> (s_text r = t \<and> res = acc @ [r])"
proof (induction t acc rule: scan.induct)
  case (1 s result)
  show ?case
  proof (cases "s = []")
    case True
    with "1.prems" show ?thesis by (simp add: scan.simps[of "[]"])
  next
    case False
    show ?thesis
    proof (cases "re_match_regex s")
      case None
      with False "1.prems" show ?thesis by (simp add: scan.simps[of s])
    next
      case (Some m)
      define result' where "result' = (case matchText m of None \<Rightarrow> result
                                 | Some mt \<Rightarrow> result @ [span_of_match m mt])"
      have new: "\<forall>r \<in> set result'. r \<in> set result \<or> length (s_text r) < length s
                  \<or> (s_text r = s \<and> group0 m = s \<and> result' = result @ [r])"
      proof (cases "matchText m")
        case None
        then show ?thesis by (simp add: result'_def)
      next
        case (Some mt)
        have "s_text (span_of_match m mt) = mt"
          by (simp add: span_of_match_def Let_def Text_init_def split: option.splits)
        with matchText_bound[OF \<open>re_match_regex s = Some m\<close> Some] Some
        show ?thesis by (auto simp: result'_def)
      qed
      have step: "scan s result = (if group0 m = [] then LoopEnd result'
                  else scan (drop (length (group0 m)) s) result')"
        using False Some by (subst scan.simps) (simp add: result'_def)
      show ?thesis
      proof (cases "group0 m = []")
        case True
        with step "1.prems" have "res = result'"
          by simp
        with new True False show ?thesis by auto
      next
        case g0: False
        with step "1.prems" have sc: "scan (drop (length (group0 m)) s) result' = LoopEnd res"
          by simp
        have IH: "\<forall>r\<in>set res. r \<in> set result' \<or> length (s_text r) < length (drop (length (group0 m)) s)
                 \<or> s_text r = drop (length (group0 m)) s \<and> res = result' @ [r]"
          using "1.IH"[OF False Some result'_def g0 sc] .
        have shorter: "length (drop (length (group0 m)) s) < length s"
          using False g0 by simp
        show ?thesis
        proof
          fix r assume r: "r \<in> set res"
          from IH r consider "r \<in> set result'" | "length (s_text r) < length s"
            using shorter by force
          then show "r \<in> set result \<or> length (s_text r) < length s \<or> (s_text r = s \<and> res = result @ [r])"
          proof cases
            case 1
            with new consider "r \<in> set result" | "length (s_text r) < length s"
              | "s_text r = s" "group0 m = s" "result' = result @ [r]" by blast
            then show ?thesis
            proof cases
              case 3
              with sc have "res = result'" by (simp add: scan.simps[of "[]"])
              with 3 show ?thesis by simp
            qed auto
          qed auto
        qed
      qed
    qed
  qed
qed

text \<open>
  \<open>parseText\<close> itself: the loop, the base case of line 333, and the re-parse of
  every span's text with the outer span merged onto each inner one.
\<close>

function parseText :: "string \<Rightarrow> Text list" where
  "parseText origanalText =
     (case scan origanalText [] of
        ReturnResult result \<Rightarrow> result
      | LoopEnd result \<Rightarrow>
          if length result = 1 \<and> s_text (result ! 0) = origanalText then result
          else concat (map (\<lambda>r. map (\<lambda>newResult. mergeWith newResult r) (parseText (s_text r)))
                 result))"
  by pat_completeness auto
termination
proof (relation "measure length")
  fix origanalText result r
  assume sc: "scan origanalText [] = LoopEnd result"
    and nb: "\<not> (length result = 1 \<and> s_text (result ! 0) = origanalText)"
    and r: "r \<in> set result"
  from scan_bound[OF sc] r
  have "length (s_text r) < length origanalText \<or> (s_text r = origanalText \<and> result = [r])"
    by auto
  with nb show "(s_text r, origanalText) \<in> measure length" by auto
qed simp

declare parseText.simps [simp del]


section \<open>Nodes and the object store\<close>

text \<open>
  Nodes are mutable objects that refer to each other (\<open>parent\<close>, \<open>children\<close>,
  \<open>textNode\<close>) and the parser keeps references into the trees, so objects live in a
  store and are named by references. \<open>Node\<close> has the three common attributes;
  \<open>HeadingNode\<close> adds \<open>title\<close> and \<open>textNode\<close>, \<open>TextNode\<close> adds \<open>text\<close>.
\<close>

type_synonym ref = nat

datatype body =
    NodeBase
  | HeadingNode (title: string) (textNode: "ref option")
  | TextNode (n_text: "Text list")

record node =
  level :: int
  children :: "ref list"
  parent :: "ref option"
  body :: body

definition Node_init :: "ref option \<Rightarrow> int \<Rightarrow> node" where
  "Node_init p l = \<lparr>level = l, children = [], parent = p, body = NodeBase\<rparr>"

definition HeadingNode_init :: "ref option \<Rightarrow> int \<Rightarrow> string \<Rightarrow> node" where
  "HeadingNode_init p l t = (Node_init p l)\<lparr>body := HeadingNode t None\<rparr>"

definition TextNode_init :: "ref option \<Rightarrow> int \<Rightarrow> Text list \<Rightarrow> node" where
  "TextNode_init p l t = (Node_init p l)\<lparr>body := TextNode t\<rparr>"

text \<open>\<open>TextNode.rawText\<close>, on the node's \<open>text\<close>.\<close>

definition rawText :: "Text list \<Rightarrow> string" where
  "rawText spans = foldl (\<lambda>result n. result @ s_text n) [] spans"

text \<open>The store: the objects allocated so far are those below \<open>next_ref\<close>.\<close>

record store =
  obj :: "ref \<Rightarrow> node"
  next_ref :: ref

definition new :: "node \<Rightarrow> store \<Rightarrow> ref \<times> store" where
  "new n s = (next_ref s, s\<lparr>obj := (obj s)(next_ref s := n), next_ref := Suc (next_ref s)\<rparr>)"

text \<open>\<open>p.children.append(c)\<close>\<close>

definition append_child :: "ref \<Rightarrow> ref \<Rightarrow> store \<Rightarrow> store" where
  "append_child p c s =
     s\<lparr>obj := (obj s)(p := (obj s p)\<lparr>children := children (obj s p) @ [c]\<rparr>)\<rparr>"

text \<open>\<open>n.level = l\<close>\<close>

definition set_level :: "ref \<Rightarrow> int \<Rightarrow> store \<Rightarrow> store" where
  "set_level n l s = s\<lparr>obj := (obj s)(n := (obj s n)\<lparr>level := l\<rparr>)\<rparr>"

text \<open>\<open>h.textNode = r\<close> on a heading with title \<open>t\<close>\<close>

definition set_textNode :: "ref \<Rightarrow> string \<Rightarrow> ref \<Rightarrow> store \<Rightarrow> store" where
  "set_textNode h t r s = s\<lparr>obj := (obj s)(h := (obj s h)\<lparr>body := HeadingNode t (Some r)\<rparr>)\<rparr>"

datatype error = AttributeError | AssertionError | PyException

section \<open>Parser.insert\<close>

text \<open>Lines 244 to 246: create the node under \<open>currentNode\<close> and append it.\<close>

definition insert_child :: "store \<Rightarrow> ref \<Rightarrow> (ref \<Rightarrow> node) \<Rightarrow> ref \<times> store" where
  "insert_child s currentNode creator =
     (let (newNode, s1) = new (creator currentNode) s
      in (newNode, append_child currentNode newNode s1))"

text \<open>Lines 259 to 262: the same, with the level of the new node overwritten.\<close>

definition insert_clamped :: "store \<Rightarrow> ref \<Rightarrow> (ref \<Rightarrow> node) \<Rightarrow> ref \<times> store" where
  "insert_clamped s currentNode creator =
     (let (newNode, s1) = new (creator currentNode) s;
          s2 = set_level newNode (level (obj s1 currentNode) + 1) s1
      in (newNode, append_child currentNode newNode s2))"

text \<open>
  The walk towards the root follows \<open>parent\<close> references of the store, so the
  recursion is not structural: a walk that never ends is the value \<open>None\<close>.
\<close>

partial_function (option) insert_node ::
  "store \<Rightarrow> ref \<Rightarrow> int \<Rightarrow> (ref \<Rightarrow> node) \<Rightarrow> (error + ref \<times> store) option" where
  "insert_node s currentNode lvl creator =
     (if lvl - 1 = level (obj s currentNode) then
        Some (Inr (insert_child s currentNode creator))
      else if lvl \<le> level (obj s currentNode) then
        (case parent (obj s currentNode) of
           None \<Rightarrow> Some (Inl AssertionError)
         | Some p \<Rightarrow> insert_node s p lvl creator)
      else if lvl > level (obj s currentNode) then
        Some (Inr (insert_clamped s currentNode creator))
      else Some (Inl PyException))"

declare insert_node.simps [code]

section \<open>The document parser\<close>

record Parser =
  heap :: store
  root :: ref
  currentHeading :: ref
  currentText :: "ref option"

text \<open>\<open>Parser.__init__\<close>: the root is the first object of an empty store.\<close>

definition empty_store :: store where
  "empty_store = \<lparr>obj = (\<lambda>r. Node_init None 0), next_ref = 0\<rparr>"

definition Parser_init :: Parser where
  "Parser_init =
     (let (r, s) = new (Node_init None 0) empty_store
      in \<lparr>heap = s, root = r, currentHeading = r, currentText = None\<rparr>)"

text \<open>\<open>str.strip()\<close> and the class \<open>\s\<close> use the same six whitespace characters.\<close>

definition is_space :: "char \<Rightarrow> bool" where
  "is_space c = (c \<in> {CHR '' '', CHR 0x09, CHR 0x0A, CHR 0x0B, CHR 0x0C, CHR 0x0D})"

definition strip :: "string \<Rightarrow> string" where
  "strip s = rev (dropWhile is_space (rev (dropWhile is_space s)))"

text \<open>\<open>re.match('([=]+)([^=]+)', line)\<close>: both groups, or no match.\<close>

definition heading_match :: "string \<Rightarrow> (string \<times> string) option" where
  "heading_match line =
     (let g1 = takeWhile (\<lambda>c. c = CHR ''='') line;
          g2 = takeWhile (\<lambda>c. c \<noteq> CHR ''='') (dropWhile (\<lambda>c. c = CHR ''='') line)
      in if g1 \<noteq> [] \<and> g2 \<noteq> [] then Some (g1, g2) else None)"

text \<open>
  \<open>parseHeading\<close>: \<open>match.group(1)\<close> on a failed match is an AttributeError.
\<close>

definition parseHeading :: "Parser \<Rightarrow> string \<Rightarrow> (error + Parser) option" where
  "parseHeading p line =
     (case heading_match line of
        None \<Rightarrow> Some (Inl AttributeError)
      | Some (g1, g2) \<Rightarrow>
          (let lvl = int (length g1);
               t = strip g2
           in case insert_node (heap p) (currentHeading p) lvl
                     (\<lambda>par. HeadingNode_init (Some par) lvl t) of
                None \<Rightarrow> None
              | Some (Inl e) \<Rightarrow> Some (Inl e)
              | Some (Inr (n, s)) \<Rightarrow>
                  Some (Inr (p\<lparr>heap := s, currentHeading := n, currentText := None\<rparr>))))"

text \<open>\<open>re.match(r'([\s]*)\* (.+)', line)\<close>: both groups, or no match.\<close>

definition bullet_match :: "string \<Rightarrow> (string \<times> string) option" where
  "bullet_match line =
     (let g1 = takeWhile is_space line;
          r = dropWhile is_space line
      in if startswith r ''* '' then
           (let g2 = takeWhile (\<lambda>c. c \<noteq> newline) (drop 2 r)
            in if g2 \<noteq> [] then Some (g1, g2) else None)
         else None)"

text \<open>
  Lines 356 and 357. Reading \<open>textNode\<close> from a node that is not a HeadingNode (the
  root) is an AttributeError. Returns the parser and the text cursor, now set.
\<close>

definition ensure_text_root :: "Parser \<Rightarrow> error + Parser \<times> ref" where
  "ensure_text_root p =
     (case body (obj (heap p) (currentHeading p)) of
        HeadingNode t tn \<Rightarrow>
          (case (tn, currentText p) of
             (Some r, Some c) \<Rightarrow> Inr (p, c)
           | _ \<Rightarrow>
               (let (r, s1) = new (Node_init None 0) (heap p);
                    s2 = set_textNode (currentHeading p) t r s1
                in Inr (p\<lparr>heap := s2, currentText := Some r\<rparr>, r)))
      | _ \<Rightarrow> Inl AttributeError)"

definition parseTextLine :: "Parser \<Rightarrow> string \<Rightarrow> (error + Parser) option" where
  "parseTextLine p0 line =
     (case ensure_text_root p0 of
        Inl e \<Rightarrow> Some (Inl e)
      | Inr (p, cur) \<Rightarrow>
          (case bullet_match line of
             None \<Rightarrow>
               (let (n, s1) = new (TextNode_init (Some cur) 1 (parseText line)) (heap p)
                in Some (Inr (p\<lparr>heap := append_child cur n s1\<rparr>)))
           | Some (g1, g2) \<Rightarrow>
               (let lvl = int (length g1) + 1;
                    t = parseText g2
                in case insert_node (heap p) cur lvl (\<lambda>par. TextNode_init (Some par) lvl t) of
                     None \<Rightarrow> None
                   | Some (Inl e) \<Rightarrow> Some (Inl e)
                   | Some (Inr (n, s)) \<Rightarrow> Some (Inr (p\<lparr>heap := s, currentText := Some n\<rparr>)))))"

definition parseLine :: "Parser \<Rightarrow> string \<Rightarrow> (error + Parser) option" where
  "parseLine p line =
     (if startswith line ''='' then parseHeading p line else parseTextLine p line)"

text \<open>\<open>wtex.split('\n')\<close>\<close>

fun split_lines :: "string \<Rightarrow> string list" where
  "split_lines [] = [[]]"
| "split_lines (c # cs) =
     (if c = newline then [] # split_lines cs
      else (case split_lines cs of
              [] \<Rightarrow> [[c]]
            | l # ls \<Rightarrow> (c # l) # ls))"

fun parseLines :: "Parser \<Rightarrow> string list \<Rightarrow> (error + Parser) option" where
  "parseLines p [] = Some (Inr p)"
| "parseLines p (line # rest) =
     (case parseLine p line of
        None \<Rightarrow> None
      | Some (Inl e) \<Rightarrow> Some (Inl e)
      | Some (Inr p') \<Rightarrow> parseLines p' rest)"

definition parseString :: "Parser \<Rightarrow> string \<Rightarrow> (error + Parser) option" where
  "parseString p wtex = parseLines p (split_lines wtex)"


section \<open>Tree traversal\<close>

text \<open>
  The two nested loops \<open>for child in heading.children: for decendent in
  dfFlattenNodeTree(child, maxLevel): yield decendent\<close>, shared by both generators.
\<close>

fun flatten_children :: "(ref \<Rightarrow> ref list option) \<Rightarrow> ref list \<Rightarrow> ref list option" where
  "flatten_children f [] = Some []"
| "flatten_children f (child # rest) =
     (case f child of
        None \<Rightarrow> None
      | Some ds \<Rightarrow> (case flatten_children f rest of
                     None \<Rightarrow> None
                   | Some es \<Rightarrow> Some (ds @ es)))"

text \<open>
  The generators, as the lists of what they yield. The recursion follows the
  \<open>children\<close> references of the store, so it is bounded by fuel: \<open>None\<close> is a
  traversal that did not end within the fuel.
\<close>

fun dfFlattenNodeTree :: "nat \<Rightarrow> store \<Rightarrow> ref \<Rightarrow> int \<Rightarrow> ref list option" where
  "dfFlattenNodeTree 0 s heading maxLevel = None"
| "dfFlattenNodeTree (Suc fuel) s heading maxLevel =
     (if maxLevel \<noteq> 0 \<and> level (obj s heading) > maxLevel then Some []
      else (case flatten_children (\<lambda>child. dfFlattenNodeTree fuel s child maxLevel)
                   (children (obj s heading)) of
              None \<Rightarrow> None
            | Some ds \<Rightarrow> Some (heading # ds)))"

definition dfFlattenDescendants :: "nat \<Rightarrow> store \<Rightarrow> ref \<Rightarrow> int \<Rightarrow> ref list option" where
  "dfFlattenDescendants fuel s heading maxLevel =
     flatten_children (\<lambda>child. dfFlattenNodeTree fuel s child maxLevel)
       (children (obj s heading))"

text \<open>\<open>HeadingNode.getTextLines\<close>; only a HeadingNode has the method.\<close>

definition getTextLines :: "nat \<Rightarrow> store \<Rightarrow> ref \<Rightarrow> (error + ref list) option" where
  "getTextLines fuel s self =
     (case body (obj s self) of
        HeadingNode t None \<Rightarrow> Some (Inr [])
      | HeadingNode t (Some r) \<Rightarrow> map_option Inr (dfFlattenDescendants fuel s r 0)
      | _ \<Rightarrow> Some (Inl AttributeError))"

section \<open>Rendering to HTML\<close>

abbreviation dquote :: char where
  "dquote \<equiv> CHR 0x22"

text \<open>The values of the attributes of a \<open>Text\<close>, and \<open>vars(self)\<close>.\<close>

datatype pyval = PyStr string | PyBool bool

fun truthy :: "pyval \<Rightarrow> bool" where
  "truthy (PyStr s) = (s \<noteq> [])"
| "truthy (PyBool b) = b"

definition vars :: "Text \<Rightarrow> string \<rightharpoonup> pyval" where
  "vars self =
     (case href self of
        None \<Rightarrow> [''text'' \<mapsto> PyStr (s_text self), ''bold'' \<mapsto> PyBool (bold self),
                  ''italic'' \<mapsto> PyBool (italic self)]
      | Some h \<Rightarrow> [''text'' \<mapsto> PyStr (s_text self), ''bold'' \<mapsto> PyBool (bold self),
                    ''italic'' \<mapsto> PyBool (italic self), ''href'' \<mapsto> PyStr h])"

text \<open>
  \<open>d.iteritems()\<close>. The order in which a dict yields its keys is fixed by the
  interpreter's hash table, not by the source, so it is a parameter: \<open>order\<close> lists
  the attribute names in the order of iteration.
\<close>

definition iteritems :: "string list \<Rightarrow> (string \<rightharpoonup> pyval) \<Rightarrow> (string \<times> pyval) list" where
  "iteritems order d = List.map_filter (\<lambda>name. map_option (Pair name) (d name)) order"

text \<open>\<open>htmlDecorator\<close>; \<open>obj.href\<close> on a span without a link is an AttributeError.\<close>

definition htmlDecorator :: "Text \<Rightarrow> string \<Rightarrow> pyval \<Rightarrow> string \<Rightarrow> error + string" where
  "htmlDecorator ob prop val t =
     (if prop = ''bold'' then Inr (if \<not> truthy val then t else ''<strong>'' @ t @ ''</strong>'')
      else if prop = ''italic'' then Inr (if \<not> truthy val then t else ''<em>'' @ t @ ''</em>'')
      else if prop = ''href'' then
        (case href ob of
           None \<Rightarrow> Inl AttributeError
         | Some h \<Rightarrow> Inr (''<a href='' @ [dquote] @ h @ [dquote] @ ''>'' @ t @ ''</a>''))
      else Inr t)"

text \<open>\<open>Text.decorate\<close>: the loop over the items, then the method.\<close>

fun decorate_loop ::
  "(Text \<Rightarrow> string \<Rightarrow> pyval \<Rightarrow> string \<Rightarrow> error + string) \<Rightarrow> Text \<Rightarrow> (string \<times> pyval) list
   \<Rightarrow> string \<Rightarrow> error + string" where
  "decorate_loop function self [] html = Inr html"
| "decorate_loop function self ((name, val) # rest) html =
     (case function self name val html of
        Inl e \<Rightarrow> Inl e
      | Inr html' \<Rightarrow> decorate_loop function self rest html')"

definition decorate ::
  "string list \<Rightarrow> Text \<Rightarrow> (Text \<Rightarrow> string \<Rightarrow> pyval \<Rightarrow> string \<Rightarrow> error + string)
   \<Rightarrow> error + string" where
  "decorate order self function =
     decorate_loop function self (iteritems order (vars self)) (s_text self)"

text \<open>\<open>getHtmlFromLine\<close>\<close>

fun html_of_spans :: "string list \<Rightarrow> Text list \<Rightarrow> string \<Rightarrow> error + string" where
  "html_of_spans order [] html = Inr html"
| "html_of_spans order (t # rest) html =
     (case decorate order t htmlDecorator of
        Inl e \<Rightarrow> Inl e
      | Inr d \<Rightarrow> html_of_spans order rest (html @ d))"

definition getHtmlFromLine :: "string list \<Rightarrow> Text list \<Rightarrow> error + string" where
  "getHtmlFromLine order line = html_of_spans order line []"

text \<open>\<open>s * n\<close> on a string: no copy for a negative \<open>n\<close>.\<close>

definition str_mul :: "string \<Rightarrow> int \<Rightarrow> string" where
  "str_mul s n = concat (replicate (nat n) s)"

text \<open>
  Lines 80 and 81, what one line adds to the HTML of its heading; \<open>line.text\<close> on a
  node that is not a TextNode is an AttributeError.
\<close>

definition line_html :: "string list \<Rightarrow> store \<Rightarrow> ref \<Rightarrow> error + string" where
  "line_html order s line =
     (case body (obj s line) of
        TextNode spans \<Rightarrow>
          (case getHtmlFromLine order spans of
             Inl e \<Rightarrow> Inl e
           | Inr h \<Rightarrow> Inr (str_mul (str_mul ''&nbsp;'' (level (obj s line) - 1)) 2 @ h @ ''<br>''))
      | _ \<Rightarrow> Inl AttributeError)"

fun lines_html :: "string list \<Rightarrow> store \<Rightarrow> ref list \<Rightarrow> string \<Rightarrow> error + string" where
  "lines_html order s [] html = Inr html"
| "lines_html order s (line # rest) html =
     (case line_html order s line of
        Inl e \<Rightarrow> Inl e
      | Inr h \<Rightarrow> lines_html order s rest (html @ h))"

text \<open>\<open>getHtmlFromHeading\<close>; \<open>heading.title\<close> exists on a HeadingNode only.\<close>

definition getHtmlFromHeading ::
  "nat \<Rightarrow> string list \<Rightarrow> store \<Rightarrow> ref \<Rightarrow> (error + string) option" where
  "getHtmlFromHeading fuel order s heading =
     (case body (obj s heading) of
        HeadingNode t tn \<Rightarrow>
          (case getTextLines fuel s heading of
             None \<Rightarrow> None
           | Some (Inl e) \<Rightarrow> Some (Inl e)
           | Some (Inr ls) \<Rightarrow>
               Some (lines_html order s ls
                       (''<a name='' @ [dquote] @ remove_spaces t @ [dquote]
                        @ ''></a><strong>'' @ t @ ''</strong><br>'')))
      | _ \<Rightarrow> Some (Inl AttributeError))"

text \<open>\<open>getHtmlFromHeadings\<close>\<close>

fun headings_html ::
  "nat \<Rightarrow> string list \<Rightarrow> store \<Rightarrow> ref list \<Rightarrow> string \<Rightarrow> (error + string) option" where
  "headings_html fuel order s [] html = Some (Inr html)"
| "headings_html fuel order s (heading # rest) html =
     (case getHtmlFromHeading fuel order s heading of
        None \<Rightarrow> None
      | Some (Inl e) \<Rightarrow> Some (Inl e)
      | Some (Inr h) \<Rightarrow> headings_html fuel order s rest (html @ ''<p>'' @ h @ ''</p>''))"

definition getHtmlFromHeadings ::
  "nat \<Rightarrow> string list \<Rightarrow> store \<Rightarrow> ref \<Rightarrow> (error + string) option" where
  "getHtmlFromHeadings fuel order s headings =
     (case dfFlattenNodeTree fuel s headings 0 of
        None \<Rightarrow> None
      | Some hs \<Rightarrow> headings_html fuel order s hs [])"

section \<open>Inline formatting: what each marker yields\<close>

lemma startswith_self_append [simp]: "startswith (m @ r) m"
  by (induction m) auto

lemma greedy_dots_short: "length s < length m \<Longrightarrow> greedy_dots m s = None"
  using greedy_dots_length[of m s] by (cases "greedy_dots m s") auto

lemma greedy_dots_closing:
  assumes "newline \<notin> set s" and "m \<noteq> []"
  shows "greedy_dots m (s @ m) = Some s"
  using assms(1)
proof (induction s)
  case Nil
  from assms(2) obtain c cs where m: "m = c # cs" by (cases m) auto
  have "greedy_dots m cs = None" by (rule greedy_dots_short) (simp add: m)
  then have "greedy_dots m (c # cs) = Some []"
    using startswith_self_append[of m "[]"] by (simp add: m)
  then show ?case by (simp add: m)
next
  case (Cons a s)
  then show ?case by auto
qed

lemma formatting_closing:
  assumes "newline \<notin> set s" and "m \<noteq> []"
  shows "formatting m (m @ s @ m) = Some s"
  unfolding formatting_def using greedy_dots_closing[OF assms] by simp

lemma scan_Nil [simp]: "scan [] acc = LoopEnd acc"
  by (simp add: scan.simps)

lemma parseText_Nil [simp]: "parseText [] = []"
  by (simp add: parseText.simps)

lemma scan_step:
  assumes "t \<noteq> []" and "re_match_regex t = Some m"
  shows "scan t acc =
           (if group0 m = []
            then LoopEnd (case matchText m of None \<Rightarrow> acc | Some mt \<Rightarrow> acc @ [span_of_match m mt])
            else scan (drop (length (group0 m)) t)
                   (case matchText m of None \<Rightarrow> acc | Some mt \<Rightarrow> acc @ [span_of_match m mt]))"
  using assms by (subst scan.simps) simp

lemma scan_bold:
  assumes "newline \<notin> set s"
  shows "scan (''__'' @ s @ ''__'') [] = LoopEnd (if s = [] then [] else [\<lparr>s_text = s, bold = True, italic = False, href = None\<rparr>])"
proof -
  have f: "formatting ''__'' (''__'' @ s @ ''__'') = Some s"
    using formatting_closing[OF assms, of "''__''"] by simp
  then have m: "re_match_regex (''__'' @ s @ ''__'')
                = Some ((no_groups (''__'' @ s @ ''__''))\<lparr>g_bold := Some s\<rparr>)"
    by (simp add: re_match_regex_def)
  show ?thesis
    by (subst scan_step[OF _ m])
       (simp_all add: no_groups_def matchText_def py_or_def span_of_match_def Text_init_def split: list.splits)
qed

lemma scan_italic:
  assumes "newline \<notin> set s"
  shows "scan (''~~'' @ s @ ''~~'') [] = LoopEnd (if s = [] then [] else [\<lparr>s_text = s, bold = False, italic = True, href = None\<rparr>])"
proof -
  have f: "formatting ''~~'' (''~~'' @ s @ ''~~'') = Some s"
    using formatting_closing[OF assms, of "''~~''"] by simp
  have "formatting ''__'' (''~~'' @ s @ ''~~'') = None" by (simp add: formatting_def)
  with f have m: "re_match_regex (''~~'' @ s @ ''~~'')
                = Some ((no_groups (''~~'' @ s @ ''~~''))\<lparr>g_italic := Some s\<rparr>)"
    by (simp add: re_match_regex_def)
  show ?thesis
    by (subst scan_step[OF _ m])
       (simp_all add: no_groups_def matchText_def py_or_def span_of_match_def Text_init_def split: list.splits)
qed

lemma scan_both:
  assumes "newline \<notin> set s"
  shows "scan (''**'' @ s @ ''**'') [] = LoopEnd (if s = [] then [] else [\<lparr>s_text = s, bold = True, italic = True, href = None\<rparr>])"
proof -
  have f: "formatting ''**'' (''**'' @ s @ ''**'') = Some s"
    using formatting_closing[OF assms, of "''**''"] by simp
  have "formatting ''__'' (''**'' @ s @ ''**'') = None"
    and "formatting ''~~'' (''**'' @ s @ ''**'') = None" by (simp_all add: formatting_def)
  with f have m: "re_match_regex (''**'' @ s @ ''**'')
                = Some ((no_groups (''**'' @ s @ ''**''))\<lparr>g_both := Some s\<rparr>)"
    by (simp add: re_match_regex_def)
  show ?thesis
    by (subst scan_step[OF _ m])
       (simp_all add: no_groups_def matchText_def py_or_def span_of_match_def Text_init_def split: list.splits)
qed

lemma parseText_of_single:
  assumes "scan t [] = LoopEnd (if s = [] then [] else [sp])" and "s_text sp = s"
    and "length s < length t"
  shows "parseText t = map (\<lambda>n. mergeWith n sp) (parseText s)"
proof (cases "s = []")
  case True
  with assms show ?thesis by (subst parseText.simps) simp
next
  case False
  with assms show ?thesis by (subst parseText.simps) auto
qed

lemma marker_styles_gen:
  assumes "newline \<notin> set s"
  shows "parseText (''__'' @ s @ ''__'') = map (\<lambda>n. mergeWith n \<lparr>s_text = s, bold = True, italic = False, href = None\<rparr>) (parseText s)"
    and "parseText (''~~'' @ s @ ''~~'') = map (\<lambda>n. mergeWith n \<lparr>s_text = s, bold = False, italic = True, href = None\<rparr>) (parseText s)"
    and "parseText (''**'' @ s @ ''**'') = map (\<lambda>n. mergeWith n \<lparr>s_text = s, bold = True, italic = True, href = None\<rparr>) (parseText s)"
  using scan_bold[OF assms] scan_italic[OF assms] scan_both[OF assms]
  by (auto intro!: parseText_of_single)

text \<open>
  C2, as amended. The first formatting alternative, \<open>__...__\<close>, is bold; the second,
  \<open>~~...~~\<close>, is italic; the third, \<open>**...**\<close>, is both. The spans are those of the
  inner text, each merged with the flags of its marker. So \<open>**bold**\<close> is one span,
  bold and italic, and \<open>~~both~~\<close> is one span, italic and not bold.
\<close>

theorem marker_styles:
  assumes "newline \<notin> set s"
  shows "parseText (''__'' @ s @ ''__'')
           = map (\<lambda>n. mergeWith n \<lparr>s_text = s, bold = True, italic = False, href = None\<rparr>) (parseText s)
       \<and> parseText (''~~'' @ s @ ''~~'')
           = map (\<lambda>n. mergeWith n \<lparr>s_text = s, bold = False, italic = True, href = None\<rparr>) (parseText s)
       \<and> parseText (''**'' @ s @ ''**'')
           = map (\<lambda>n. mergeWith n \<lparr>s_text = s, bold = True, italic = True, href = None\<rparr>) (parseText s)
       \<and> parseText ''**bold**'' = [\<lparr>s_text = ''bold'', bold = True, italic = True, href = None\<rparr>]
       \<and> parseText ''~~both~~'' = [\<lparr>s_text = ''both'', bold = False, italic = True, href = None\<rparr>]"
proof -
  have "parseText ''**bold**'' = [\<lparr>s_text = ''bold'', bold = True, italic = True, href = None\<rparr>]"
    by code_simp
  moreover have "parseText ''~~both~~'' = [\<lparr>s_text = ''both'', bold = False, italic = True, href = None\<rparr>]"
    by code_simp
  ultimately show ?thesis using marker_styles_gen[OF assms] by simp
qed

theorem marker_styles_witness:
  "newline \<notin> set ''Hi''
   \<and> parseText ''__Hi__'' = [\<lparr>s_text = ''Hi'', bold = True, italic = False, href = None\<rparr>]
   \<and> parseText ''~~Hi~~'' = [\<lparr>s_text = ''Hi'', bold = False, italic = True, href = None\<rparr>]
   \<and> parseText ''**Hi**'' = [\<lparr>s_text = ''Hi'', bold = True, italic = True, href = None\<rparr>]"
proof -
  have n: "newline \<notin> set ''Hi''" by simp
  have p: "parseText ''Hi'' = [\<lparr>s_text = ''Hi'', bold = False, italic = False, href = None\<rparr>]"
    by code_simp
  from marker_styles[OF n] n show ?thesis
    by (simp add: p mergeWith_def)
qed

text \<open>
  C2 as stated fails: \<open>**bold**\<close> is not an italic-free span, and \<open>~~both~~\<close> is
  not bold and italic.
\<close>

theorem star_marker_counterexample:
  "parseText ''**bold**'' \<noteq> [\<lparr>s_text = ''bold'', bold = True, italic = False, href = None\<rparr>]
   \<and> \<not> (bold (parseText ''~~both~~'' ! 0) \<and> italic (parseText ''~~both~~'' ! 0))"
  by code_simp

section \<open>Inline formatting: unmatched openers\<close>

text \<open>
  The openers that the lookahead of the last alternative names, and Python's
  \<open>m in s\<close> on strings.
\<close>

definition openers :: "string list" where
  "openers = [''**'', ''__'', ''~~'', ''[['']"

fun occurs_in :: "string \<Rightarrow> string \<Rightarrow> bool" where
  "occurs_in m [] = (m = [])"
| "occurs_in m (c # cs) = (startswith (c # cs) m \<or> occurs_in m cs)"

lemma greedy_dots_sound:
  "greedy_dots m s = Some g \<Longrightarrow> \<exists>v. s = g @ m @ v \<and> newline \<notin> set g"
proof (induction s arbitrary: g)
  case Nil
  then show ?case by (cases m) (auto split: if_splits)
next
  case (Cons c cs)
  show ?case
  proof (cases "if c \<noteq> newline then greedy_dots m cs else None")
    case None
    with Cons.prems have "startswith (c # cs) m" and "g = []"
      by (auto split: if_splits)
    then show ?thesis using startswith_append by fastforce
  next
    case (Some g')
    with Cons.prems have g: "g = c # g'" by simp
    from Some have gd: "greedy_dots m cs = Some g'" and c: "c \<noteq> newline" by (auto split: if_splits)
    from Cons.IH[OF gd] g c show ?thesis by auto
  qed
qed

lemma takeWhile_dropWhile_starts:
  assumes "startswith (dropWhile P r) m"
  shows "\<exists>v. r = takeWhile P r @ m @ v"
proof -
  from startswith_append[OF assms] obtain v where "dropWhile P r = m @ v" by blast
  then have "r = takeWhile P r @ m @ v" by (metis takeWhile_dropWhile_id)
  then show ?thesis by blast
qed

lemma link_bare_sound: "link_bare (''[['' @ rest) = Some t \<Longrightarrow> \<exists>v. rest = t @ '']]'' @ v"
  unfolding link_bare_def Let_def
  by (auto split: if_splits dest!: takeWhile_dropWhile_starts)

lemma link_piped_sound:
  assumes "link_piped (''[['' @ rest) = Some (h, t)"
  shows "\<exists>u v. rest = u @ '']]'' @ v"
proof -
  from assms obtain bar r2 where d: "dropWhile (\<lambda>c. c \<noteq> CHR ''|'') rest = bar # r2"
    and sw: "startswith (dropWhile (\<lambda>c. c \<noteq> CHR '']'') r2) '']]''"
    unfolding link_piped_def Let_def by (auto split: if_splits list.splits)
  from takeWhile_dropWhile_starts[OF sw] obtain v where
    r2: "r2 = takeWhile (\<lambda>c. c \<noteq> CHR '']'') r2 @ '']]'' @ v" by blast
  have "rest = takeWhile (\<lambda>c. c \<noteq> CHR ''|'') rest @ bar # r2"
    using d by (metis takeWhile_dropWhile_id)
  then have "rest = (takeWhile (\<lambda>c. c \<noteq> CHR ''|'') rest @ bar # takeWhile (\<lambda>c. c \<noteq> CHR '']'') r2) @ '']]'' @ v"
    using r2 by (metis append.assoc append_Cons)
  then show ?thesis by blast
qed

text \<open>The scan at an opener that no alternative matches: the empty match, then \<open>break\<close>.\<close>

lemma scan_stops:
  assumes "t \<noteq> []" and "lookahead t"
    and "formatting ''__'' t = None" and "formatting ''~~'' t = None"
    and "formatting ''**'' t = None" and "link_piped t = None" and "link_bare t = None"
  shows "scan t acc = LoopEnd acc"
proof -
  from assms(1) obtain c cs where t: "t = c # cs" by (cases t) auto
  have "lazy_dots t = Some []" using assms(2) by (simp add: t)
  with assms have m: "re_match_regex t = Some ((no_groups [])\<lparr>g_otherwise := Some []\<rparr>)"
    by (simp add: re_match_regex_def)
  show ?thesis
    by (subst scan_step[OF assms(1) m])
       (simp add: no_groups_def matchText_def py_or_def)
qed

lemma occurs_in_iff: "occurs_in m s \<longleftrightarrow> (\<exists>u v. s = u @ m @ v)"
proof (induction s)
  case Nil
  show ?case by auto
next
  case (Cons c cs)
  show ?case
  proof
    assume "occurs_in m (c # cs)"
    then consider "startswith (c # cs) m" | "occurs_in m cs" by auto
    then show "\<exists>u v. c # cs = u @ m @ v"
    proof cases
      case 1
      from startswith_append[OF 1] obtain r where "c # cs = m @ r" by blast
      then have "c # cs = [] @ m @ r" by simp
      then show ?thesis by blast
    next
      case 2
      with Cons obtain u v where "cs = u @ m @ v" by blast
      then have "c # cs = (c # u) @ m @ v" by simp
      then show ?thesis by blast
    qed
  next
    assume "\<exists>u v. c # cs = u @ m @ v"
    then obtain u v where e: "c # cs = u @ m @ v" by blast
    show "occurs_in m (c # cs)"
    proof (cases u)
      case Nil
      with e have "c # cs = m @ v" by simp
      then have "startswith (c # cs) m" by (metis startswith_self_append)
      then show ?thesis by simp
    next
      case (Cons a u')
      with e have "cs = u' @ m @ v" by simp
      with Cons.IH show ?thesis by auto
    qed
  qed
qed

lemma lookahead_two:
  "lookahead (a # x # ys) \<longleftrightarrow> (\<exists>op \<in> set openers. startswith [a, x] op)"
  by (auto simp: lookahead_def openers_def)

lemma startswith_two:
  assumes "op \<in> set openers"
  shows "startswith (a # x # ys) op \<longleftrightarrow> startswith [a, x] op"
  using assms by (auto simp: openers_def)

text \<open>A text that the lazy alternative matches whole holds no opener and no newline.\<close>

lemma lazy_dots_whole:
  assumes "lazy_dots t = Some t" and "op \<in> set openers"
  shows "\<not> occurs_in op t"
  using assms(1)
proof (induction t)
  case Nil
  from assms(2) show ?case by (auto simp: openers_def)
next
  case (Cons c cs)
  from Cons.prems have nl: "\<not> lookahead (c # cs)"
    by (auto split: if_splits)
  with Cons.prems have cs: "lazy_dots cs = Some cs"
    by (auto split: if_splits)
  have "\<not> startswith (c # cs) op"
    using nl assms(2) by (auto simp: lookahead_def openers_def)
  with Cons.IH[OF cs] show ?case by simp
qed

lemma matchText_whole:
  assumes "re_match_regex t = Some m" and "matchText m = Some t"
  shows "lazy_dots t = Some t"
  using assms(1)
proof (cases rule: re_match_regex_cases)
  case (bold g)
  with assms(2) have "t = g" by (auto simp: matchText_def no_groups_def py_or_def split: list.splits)
  with bold formatting_length[of "''__''" t g] show ?thesis by simp
next
  case (italic g)
  with assms(2) have "t = g" by (auto simp: matchText_def no_groups_def py_or_def split: list.splits)
  with italic formatting_length[of "''~~''" t g] show ?thesis by simp
next
  case (both g)
  with assms(2) have "t = g" by (auto simp: matchText_def no_groups_def py_or_def split: list.splits)
  with both formatting_length[of "''**''" t g] show ?thesis by simp
next
  case (piped h d)
  with assms(2) have "t = d" by (auto simp: matchText_def no_groups_def py_or_def split: list.splits)
  with piped link_piped_length[of t h d] show ?thesis by simp
next
  case (bare d)
  with assms(2) have "t = d" by (auto simp: matchText_def no_groups_def py_or_def split: list.splits)
  with bare link_bare_length[of t d] show ?thesis by simp
next
  case (otherwise g)
  with assms(2) have "t = g" by (auto simp: matchText_def no_groups_def py_or_def split: list.splits)
  with otherwise show ?thesis by simp
qed

lemma span_text: "s_text (span_of_match m mt) = mt"
  by (simp add: span_of_match_def Let_def Text_init_def split: option.splits)

text \<open>The base case of parseText is reached only through the lazy alternative.\<close>

lemma fixed_point_lazy:
  assumes sc: "scan t [] = LoopEnd [sp]" and tx: "s_text sp = t"
  shows "lazy_dots t = Some t"
proof -
  have ne: "t \<noteq> []" using sc by (cases t) auto
  from sc ne obtain m where m: "re_match_regex t = Some m"
    by (cases "re_match_regex t") (auto simp: scan.simps[of t])
  define acc where "acc = (case matchText m of None \<Rightarrow> [] | Some mt \<Rightarrow> [span_of_match m mt])"
  have step: "scan t [] = (if group0 m = [] then LoopEnd acc
                           else scan (drop (length (group0 m)) t) acc)"
    using scan_step[OF ne m, of "[]"] by (cases "matchText m") (simp_all add: acc_def)
  have shorter: "group0 m \<noteq> [] \<Longrightarrow> length (drop (length (group0 m)) t) < length t"
    using ne by simp
  have "sp \<in> set acc"
  proof (cases "group0 m = []")
    case True
    with step sc have "acc = [sp]" by simp
    then show ?thesis by simp
  next
    case False
    with step sc have "scan (drop (length (group0 m)) t) acc = LoopEnd [sp]" by simp
    from scan_bound[OF this] have "sp \<in> set acc
        \<or> length (s_text sp) < length (drop (length (group0 m)) t)
        \<or> s_text sp = drop (length (group0 m)) t \<and> [sp] = acc @ [sp]" by simp
    then have "sp \<in> set acc \<or> length (s_text sp) \<le> length (drop (length (group0 m)) t)"
      by (metis less_imp_le order_refl)
    with shorter[OF False] tx show ?thesis by simp
  qed
  then obtain mt where mt: "matchText m = Some mt" and "sp = span_of_match m mt"
    by (cases "matchText m") (auto simp: acc_def)
  with tx have "mt = t" by (simp add: span_text)
  with mt matchText_whole[OF m] show ?thesis by simp
qed


subsection \<open>Lines: texts without a newline\<close>

lemma lazy_dots_total: "newline \<notin> set s \<Longrightarrow> \<exists>g. lazy_dots s = Some g"
  by (induction s) (auto simp: lookahead_def)

lemma re_match_total:
  assumes "newline \<notin> set s"
  shows "\<exists>m. re_match_regex s = Some m"
proof -
  from lazy_dots_total[OF assms] obtain g where "lazy_dots s = Some g" by blast
  then show ?thesis
    unfolding re_match_regex_def
    by (cases "formatting ''__'' s"; cases "formatting ''~~'' s"; cases "formatting ''**'' s";
        cases "link_piped s"; cases "link_bare s") auto
qed

lemma matchText_nonempty: "matchText m = Some mt \<Longrightarrow> mt \<noteq> []"
  unfolding matchText_def py_or_def
  by (cases "g_bold m"; cases "g_italic m"; cases "g_both m"; cases "g_linkText m";
      cases "g_onlyLinkText m"; cases "g_otherwise m")
     (auto split: list.splits)

lemma link_piped_subset:
  assumes "link_piped s = Some (h, t)"
  shows "set t \<subseteq> set s"
proof -
  from assms obtain bar r2 where d: "dropWhile (\<lambda>c. c \<noteq> CHR ''|'') (drop 2 s) = bar # r2"
    and t: "t = takeWhile (\<lambda>c. c \<noteq> CHR '']'') r2"
    unfolding link_piped_def Let_def by (auto split: if_splits list.splits)
  have "set t \<subseteq> set r2" unfolding t by (auto dest: set_takeWhileD)
  also have "\<dots> \<subseteq> set (dropWhile (\<lambda>c. c \<noteq> CHR ''|'') (drop 2 s))" unfolding d by auto
  also have "\<dots> \<subseteq> set (drop 2 s)" by (auto dest: set_dropWhileD)
  also have "\<dots> \<subseteq> set s" by (rule set_drop_subset)
  finally show ?thesis .
qed

lemma formatting_subset:
  assumes "formatting m s = Some g"
  shows "set g \<subseteq> set s"
proof -
  from assms have "greedy_dots m (drop (length m) s) = Some g"
    by (simp add: formatting_def split: if_splits)
  from greedy_dots_sound[OF this] obtain v where "drop (length m) s = g @ m @ v" by blast
  then have "set g \<subseteq> set (drop (length m) s)" by simp
  with set_drop_subset[of "length m" s] show ?thesis by blast
qed

lemma link_bare_subset: "link_bare s = Some t \<Longrightarrow> set t \<subseteq> set s"
  unfolding link_bare_def Let_def
  by (auto split: if_splits dest!: set_takeWhileD in_set_dropD)

lemma matchText_subset:
  assumes "re_match_regex t = Some m" and "matchText m = Some mt"
  shows "set mt \<subseteq> set t"
  using assms(1)
proof (cases rule: re_match_regex_cases)
  case (bold g)
  with assms(2) have mt: "mt = g" by (auto simp: matchText_def no_groups_def py_or_def split: list.splits)
  with formatting_subset[OF bold(1)] show ?thesis by simp
next
  case (italic g)
  with assms(2) have mt: "mt = g" by (auto simp: matchText_def no_groups_def py_or_def split: list.splits)
  with formatting_subset[OF italic(2)] show ?thesis by simp
next
  case (both g)
  with assms(2) have mt: "mt = g" by (auto simp: matchText_def no_groups_def py_or_def split: list.splits)
  with formatting_subset[OF both(3)] show ?thesis by simp
next
  case (piped h d)
  with assms(2) have "mt = d" by (auto simp: matchText_def no_groups_def py_or_def split: list.splits)
  with link_piped_subset[OF piped(4)] show ?thesis by simp
next
  case (bare d)
  with assms(2) have mt: "mt = d" by (auto simp: matchText_def no_groups_def py_or_def split: list.splits)
  with link_bare_subset[OF bare(5)] show ?thesis by simp
next
  case (otherwise g)
  with assms(2) have mt: "mt = g" by (auto simp: matchText_def no_groups_def py_or_def split: list.splits)
  from lazy_dots_prefix[OF otherwise(6)] have "g = take (length g) t" by simp
  then have "set g \<subseteq> set t" by (metis set_take_subset)
  with mt show ?thesis by simp
qed

text \<open>
  On a line the scan always falls out of the loop, and every span it adds has a
  non-empty text without a newline.
\<close>

definition line_span :: "Text \<Rightarrow> bool" where
  "line_span r = (s_text r \<noteq> [] \<and> newline \<notin> set (s_text r))"

lemma scan_line:
  "newline \<notin> set t \<Longrightarrow> list_all line_span acc \<Longrightarrow>
   \<exists>res. scan t acc = LoopEnd res \<and> list_all line_span res"
proof (induction t acc rule: scan.induct)
  case (1 s result)
  show ?case
  proof (cases "s = []")
    case True
    with "1.prems" show ?thesis by simp
  next
    case False
    from re_match_total[OF "1.prems"(1)] obtain m where m: "re_match_regex s = Some m" by blast
    define result' where "result' = (case matchText m of None \<Rightarrow> result
                                 | Some mt \<Rightarrow> result @ [span_of_match m mt])"
    have r': "list_all line_span result'"
    proof (cases "matchText m")
      case None
      with "1.prems"(2) show ?thesis by (simp add: result'_def)
    next
      case (Some mt)
      from matchText_subset[OF m Some] "1.prems"(1) have "newline \<notin> set mt" by blast
      with matchText_nonempty[OF Some] Some "1.prems"(2) show ?thesis
        by (simp add: result'_def line_span_def list_all_iff span_text)
    qed
    have step: "scan s result = (if group0 m = [] then LoopEnd result'
                else scan (drop (length (group0 m)) s) result')"
      using scan_step[OF False m, of result] by (simp add: result'_def)
    show ?thesis
    proof (cases "group0 m = []")
      case True
      with step r' show ?thesis by simp
    next
      case g0: False
      have "newline \<notin> set (drop (length (group0 m)) s)"
        using "1.prems"(1) by (meson in_set_dropD)
      from "1.IH"[OF False m result'_def g0 this r'] step g0 show ?thesis by simp
    qed
  qed
qed

lemma mergeWith_text: "s_text n \<noteq> [] \<Longrightarrow> s_text (mergeWith n r) = s_text n"
  by (simp add: mergeWith_def)

text \<open>No span of a line holds an opener.\<close>

lemma parseText_line:
  "newline \<notin> set t \<Longrightarrow>
   list_all (\<lambda>sp. s_text sp \<noteq> [] \<and> list_all (\<lambda>op. \<not> occurs_in op (s_text sp)) openers)
     (parseText t)"
proof (induction t rule: parseText.induct)
  case (1 t)
  let ?ok = "\<lambda>sp. s_text sp \<noteq> [] \<and> list_all (\<lambda>op. \<not> occurs_in op (s_text sp)) openers"
  from scan_line[OF "1.prems", of "[]"] obtain res where
    sc: "scan t [] = LoopEnd res" and ls: "list_all line_span res" by auto
  show ?case
  proof (cases "length res = 1 \<and> s_text (res ! 0) = t")
    case True
    then obtain sp where res: "res = [sp]" and tx: "s_text sp = t"
      by (cases res) auto
    from fixed_point_lazy[OF sc[unfolded res] tx] have lz: "lazy_dots t = Some t" .
    have "list_all (\<lambda>op. \<not> occurs_in op t) openers"
      using lazy_dots_whole[OF lz] by (simp add: list_all_iff)
    moreover from ls res tx have "t \<noteq> []" by (simp add: line_span_def)
    moreover have "parseText t = [sp]"
      using sc res tx by (subst parseText.simps) simp
    ultimately show ?thesis using tx by simp
  next
    case False
    have pt: "parseText t
              = concat (map (\<lambda>r. map (\<lambda>n. mergeWith n r) (parseText (s_text r))) res)"
      using sc False by (subst parseText.simps) auto
    have "list_all ?ok (map (\<lambda>n. mergeWith n r) (parseText (s_text r)))" if r: "r \<in> set res" for r
    proof -
      from ls r have "newline \<notin> set (s_text r)" by (simp add: list_all_iff line_span_def)
      from "1.IH"[OF sc False r this] have "list_all ?ok (parseText (s_text r))" .
      then show ?thesis by (simp add: list_all_iff mergeWith_text)
    qed
    then show ?thesis unfolding pt by (simp add: list_all_iff)
  qed
qed


subsection \<open>The scan at an opener that is not closed\<close>

lemma occurs_in_startswith: "startswith s m \<Longrightarrow> occurs_in m s"
  by (cases s; cases m) auto

lemma occurs_in_append: "occurs_in m s \<Longrightarrow> occurs_in m (s @ r)"
  unfolding occurs_in_iff by (metis append.assoc)

lemma unclosed_formatting:
  assumes "\<not> occurs_in m rest" and "m \<noteq> []"
  shows "formatting m (m @ rest) = None"
proof (cases "greedy_dots m rest")
  case None
  then show ?thesis by (simp add: formatting_def)
next
  case (Some g)
  from greedy_dots_sound[OF this] assms(1) show ?thesis
    unfolding occurs_in_iff by blast
qed

lemma unclosed_link:
  assumes "\<not> occurs_in '']]'' rest"
  shows "link_piped (''[['' @ rest) = None" and "link_bare (''[['' @ rest) = None"
proof -
  show "link_piped (''[['' @ rest) = None"
  proof (cases "link_piped (''[['' @ rest)")
    case (Some x)
    obtain h t where "x = (h, t)" by (cases x)
    with Some link_piped_sound[of rest h t] assms show ?thesis
      unfolding occurs_in_iff by blast
  qed simp
  show "link_bare (''[['' @ rest) = None"
  proof (cases "link_bare (''[['' @ rest)")
    case (Some t)
    with link_bare_sound[of rest t] assms show ?thesis
      unfolding occurs_in_iff by blast
  qed simp
qed

lemma scan_unclosed:
  shows "\<not> occurs_in ''__'' rest \<Longrightarrow> scan (''__'' @ rest) acc = LoopEnd acc"
    and "\<not> occurs_in '']]'' rest' \<Longrightarrow> scan (''[['' @ rest') acc = LoopEnd acc"
proof -
  assume a: "\<not> occurs_in ''__'' rest"
  have f: "formatting ''__'' (''__'' @ rest) = None"
    by (rule unclosed_formatting[OF a]) simp
  show "scan (''__'' @ rest) acc = LoopEnd acc"
    by (rule scan_stops) (use f in \<open>simp_all add: lookahead_def formatting_def link_piped_def link_bare_def\<close>)
next
  assume a: "\<not> occurs_in '']]'' rest'"
  show "scan (''[['' @ rest') acc = LoopEnd acc"
    by (rule scan_stops)
       (use unclosed_link[OF a] in \<open>simp_all add: lookahead_def formatting_def\<close>)
qed

text \<open>A text without an opener and without a newline is one plain span.\<close>

lemma lazy_dots_plain:
  assumes "newline \<notin> set pre" and "list_all (\<lambda>op. \<not> occurs_in op (pre @ [c])) openers"
    and "lookahead (c # rst)"
  shows "lazy_dots (pre @ c # rst) = Some pre"
  using assms(1,2)
proof (induction pre)
  case Nil
  with assms(3) show ?case by simp
next
  case (Cons a pre)
  obtain x ys where xs: "pre @ c # rst = x # ys" by (cases pre) auto
  obtain zs where zs: "pre @ [c] = x # zs" using xs by (cases pre) auto
  have "\<not> lookahead (a # x # ys)"
  proof
    assume "lookahead (a # x # ys)"
    then obtain op where op: "op \<in> set openers" and "startswith [a, x] op"
      unfolding lookahead_two by blast
    then have "startswith (a # x # zs) op" using startswith_two[OF op, of a x zs] by simp
    then have "occurs_in op ((a # pre) @ [c])" using zs by simp
    with op Cons.prems(2) show False by (simp add: list_all_iff)
  qed
  moreover have "list_all (\<lambda>op. \<not> occurs_in op (pre @ [c])) openers"
    using Cons.prems(2) by (simp add: list_all_iff)
  moreover have "a \<noteq> newline" "newline \<notin> set pre" using Cons.prems(1) by auto
  ultimately show ?case using Cons.IH xs by simp
qed

lemma no_opener_start:
  assumes "pre \<noteq> []" and "list_all (\<lambda>op. \<not> occurs_in op (pre @ [c])) openers"
    and "op \<in> set openers"
  shows "\<not> startswith (pre @ c # rst) op"
proof -
  from assms(1) obtain a x ys where xs: "pre @ c # rst = a # x # ys"
    by (cases pre; cases "tl pre") auto
  from assms(1) xs obtain zs where zs: "pre @ [c] = a # x # zs"
    by (cases pre; cases "tl pre") auto
  show ?thesis
  proof
    assume "startswith (pre @ c # rst) op"
    then have "startswith [a, x] op" using startswith_two[OF assms(3), of a x ys] xs by simp
    then have "startswith (pre @ [c]) op" using startswith_two[OF assms(3), of a x zs] zs by simp
    then have "occurs_in op (pre @ [c])" by (rule occurs_in_startswith)
    with assms(2,3) show False by (simp add: list_all_iff)
  qed
qed

lemma re_match_plain:
  assumes "newline \<notin> set pre" and "list_all (\<lambda>op. \<not> occurs_in op (pre @ [c])) openers"
    and "pre \<noteq> []" and "lookahead (c # rst)"
  shows "re_match_regex (pre @ c # rst) = Some ((no_groups pre)\<lparr>g_otherwise := Some pre\<rparr>)"
proof -
  have "\<not> startswith (pre @ c # rst) ''__''" "\<not> startswith (pre @ c # rst) ''~~''"
    "\<not> startswith (pre @ c # rst) ''**''" "\<not> startswith (pre @ c # rst) ''[[''"
    by (rule no_opener_start[OF assms(3,2)], simp add: openers_def)+
  then have "formatting ''__'' (pre @ c # rst) = None" "formatting ''~~'' (pre @ c # rst) = None"
    "formatting ''**'' (pre @ c # rst) = None" "link_piped (pre @ c # rst) = None"
    "link_bare (pre @ c # rst) = None"
    by (simp_all add: formatting_def link_piped_def link_bare_def)
  then show ?thesis using lazy_dots_plain[OF assms(1,2,4)]
    by (simp add: re_match_regex_def)
qed

lemma scan_plain:
  assumes "newline \<notin> set pre" and "list_all (\<lambda>op. \<not> occurs_in op (pre @ [c])) openers"
    and "pre \<noteq> []" and "lookahead (c # rst)"
  shows "scan (pre @ c # rst) [] = scan (c # rst) [Text_init pre]"
proof -
  from assms(3) obtain a as where pre: "pre = a # as" by (cases pre) auto
  have ne: "pre @ c # rst \<noteq> []" by simp
  show ?thesis
    by (subst scan_step[OF ne re_match_plain[OF assms]])
       (simp add: pre no_groups_def matchText_def py_or_def span_of_match_def Text_init_def)
qed

lemma lazy_dots_all:
  assumes "newline \<notin> set pre" and "list_all (\<lambda>op. \<not> occurs_in op pre) openers"
  shows "lazy_dots pre = Some pre"
  using assms
proof (induction pre)
  case Nil
  show ?case by (simp add: lookahead_def)
next
  case (Cons a pre)
  from Cons.prems(2) have st: "\<not> startswith (a # pre) ''**''" "\<not> startswith (a # pre) ''__''"
    "\<not> startswith (a # pre) ''~~''" "\<not> startswith (a # pre) ''[[''"
    and rest: "list_all (\<lambda>op. \<not> occurs_in op pre) openers"
    by (simp_all add: openers_def)
  from Cons.prems(1) have a: "a \<noteq> newline" and pre: "newline \<notin> set pre" by auto
  from st a have nl: "\<not> lookahead (a # pre)" unfolding lookahead_def by blast
  from Cons.IH[OF pre rest] nl a show ?case by simp
qed

lemma parseText_plain:
  assumes "newline \<notin> set pre" and "list_all (\<lambda>op. \<not> occurs_in op pre) openers"
  shows "parseText pre = (if pre = [] then [] else [Text_init pre])"
proof (cases "pre = []")
  case True
  then show ?thesis by simp
next
  case False
  then obtain a as where pre: "pre = a # as" by (cases pre) auto
  have "\<not> startswith pre op" if "op \<in> set openers" for op
    using assms(2) that occurs_in_startswith[of pre op] by (auto simp: list_all_iff)
  then have "\<not> startswith pre ''__''" "\<not> startswith pre ''~~''"
    "\<not> startswith pre ''**''" "\<not> startswith pre ''[[''"
    by (simp_all add: openers_def)
  then have "formatting ''__'' pre = None" "formatting ''~~'' pre = None"
    "formatting ''**'' pre = None" "link_piped pre = None" "link_bare pre = None"
    by (simp_all add: formatting_def link_piped_def link_bare_def)
  then have m: "re_match_regex pre = Some ((no_groups pre)\<lparr>g_otherwise := Some pre\<rparr>)"
    using lazy_dots_all[OF assms] by (simp add: re_match_regex_def)
  have "scan pre [] = LoopEnd [Text_init pre]"
    by (subst scan_step[OF False m])
       (simp add: pre no_groups_def matchText_def py_or_def span_of_match_def Text_init_def)
  then show ?thesis using False
    by (subst parseText.simps) (simp add: Text_init_def)
qed

lemma parseText_stops:
  assumes "newline \<notin> set pre" and "list_all (\<lambda>op. \<not> occurs_in op (pre @ [c])) openers"
    and "lookahead (c # rst)" and "\<And>acc. scan (c # rst) acc = LoopEnd acc"
  shows "parseText (pre @ c # rst) = (if pre = [] then [] else [Text_init pre])"
proof (cases "pre = []")
  case True
  with assms(4)[of "[]"] show ?thesis by (subst parseText.simps) simp
next
  case False
  have "scan (pre @ c # rst) [] = scan (c # rst) [Text_init pre]"
    by (rule scan_plain[OF assms(1,2) False assms(3)])
  with assms(4) have sc: "scan (pre @ c # rst) [] = LoopEnd [Text_init pre]" by simp
  have ne: "pre \<noteq> pre @ c # rst" by simp
  have op: "list_all (\<lambda>op. \<not> occurs_in op pre) openers"
    using assms(2) occurs_in_append[of _ pre "[c]"] by (auto simp: list_all_iff)
  have "parseText (pre @ c # rst) = map (\<lambda>n. mergeWith n (Text_init pre)) (parseText pre)"
    using sc ne by (subst parseText.simps) (simp add: Text_init_def)
  also have "\<dots> = [Text_init pre]"
    using False by (simp add: parseText_plain[OF assms(1) op] mergeWith_def Text_init_def)
  finally show ?thesis using False by simp
qed

text \<open>
  C6, as amended. On every line (a text without a newline), so on every line that
  holds an opener \<open>__\<close> or \<open>[[\<close> without its closing marker, parseText raises
  nothing and returns spans with non-empty texts none of which holds \<open>**\<close>,
  \<open>__\<close>, \<open>~~\<close> or \<open>[[\<close>: the text of an unmatched marker is in no span.
  Wherever the scan loop stands at \<open>__\<close> with no \<open>__\<close> after it, or at \<open>[[\<close>
  with no \<open>]]\<close> after it, the last alternative matches the empty string and the
  loop ends with the spans collected so far. When the text before such an opener
  holds no opener itself and does not end in the opener's character, the result is
  the one plain span of that text (no span when it is empty): the opener and what
  follows it are dropped.
\<close>

theorem unmatched_opener_dropped:
  "(newline \<notin> set line \<longrightarrow>
      list_all (\<lambda>sp. s_text sp \<noteq> [] \<and> list_all (\<lambda>op. \<not> occurs_in op (s_text sp)) openers)
        (parseText line))
   \<and> (\<not> occurs_in ''__'' rest \<longrightarrow> scan (''__'' @ rest) acc = LoopEnd acc)
   \<and> (\<not> occurs_in '']]'' rest' \<longrightarrow> scan (''[['' @ rest') acc = LoopEnd acc)
   \<and> (newline \<notin> set pre \<and> list_all (\<lambda>op. \<not> occurs_in op (pre @ ''_'')) openers
        \<and> \<not> occurs_in ''__'' rest \<longrightarrow>
      parseText (pre @ ''__'' @ rest) = (if pre = [] then [] else [Text_init pre]))
   \<and> (newline \<notin> set pre \<and> list_all (\<lambda>op. \<not> occurs_in op (pre @ ''['')) openers
        \<and> \<not> occurs_in '']]'' rest' \<longrightarrow>
      parseText (pre @ ''[['' @ rest') = (if pre = [] then [] else [Text_init pre]))"
proof (intro conjI impI)
  show "list_all (\<lambda>sp. s_text sp \<noteq> [] \<and> list_all (\<lambda>op. \<not> occurs_in op (s_text sp)) openers)
        (parseText line)" if "newline \<notin> set line"
    by (rule parseText_line[OF that])
  show "scan (''__'' @ rest) acc = LoopEnd acc" if "\<not> occurs_in ''__'' rest"
    by (rule scan_unclosed(1)[OF that])
  show "scan (''[['' @ rest') acc = LoopEnd acc" if "\<not> occurs_in '']]'' rest'"
    by (rule scan_unclosed(2)[OF that])
  show "parseText (pre @ ''__'' @ rest) = (if pre = [] then [] else [Text_init pre])"
    if h: "newline \<notin> set pre \<and> list_all (\<lambda>op. \<not> occurs_in op (pre @ ''_'')) openers
        \<and> \<not> occurs_in ''__'' rest"
  proof -
    have "parseText (pre @ CHR ''_'' # (CHR ''_'' # rest))
          = (if pre = [] then [] else [Text_init pre])"
    proof (rule parseText_stops)
      show "newline \<notin> set pre" using h by simp
      show "list_all (\<lambda>op. \<not> occurs_in op (pre @ [CHR ''_''])) openers" using h by simp
      show "lookahead (CHR ''_'' # CHR ''_'' # rest)" by (simp add: lookahead_def)
      show "scan (CHR ''_'' # CHR ''_'' # rest) acc = LoopEnd acc" for acc
        using scan_unclosed(1)[of rest acc] h by simp
    qed
    then show ?thesis by simp
  qed
  show "parseText (pre @ ''[['' @ rest') = (if pre = [] then [] else [Text_init pre])"
    if h: "newline \<notin> set pre \<and> list_all (\<lambda>op. \<not> occurs_in op (pre @ ''['')) openers
        \<and> \<not> occurs_in '']]'' rest'"
  proof -
    have "parseText (pre @ CHR ''['' # (CHR ''['' # rest'))
          = (if pre = [] then [] else [Text_init pre])"
    proof (rule parseText_stops)
      show "newline \<notin> set pre" using h by simp
      show "list_all (\<lambda>op. \<not> occurs_in op (pre @ [CHR ''['']))  openers" using h by simp
      show "lookahead (CHR ''['' # CHR ''['' # rest')" by (simp add: lookahead_def)
      show "scan (CHR ''['' # CHR ''['' # rest') acc = LoopEnd acc" for acc
        using scan_unclosed(2)[of rest' acc] h by simp
    qed
    then show ?thesis by simp
  qed
qed

theorem unmatched_opener_dropped_witness:
  "newline \<notin> set ''__a__ and [[b''
   \<and> list_all (\<lambda>sp. s_text sp \<noteq> [] \<and> list_all (\<lambda>op. \<not> occurs_in op (s_text sp)) openers)
         (parseText ''__a__ and [[b'')
   \<and> \<not> occurs_in ''__'' ''c'' \<and> \<not> occurs_in '']]'' ''link''
   \<and> scan ''__c'' [Text_init ''a*b ''] = LoopEnd [Text_init ''a*b '']
   \<and> scan ''[[link'' [] = LoopEnd []
   \<and> parseText ''a*b __c'' = [Text_init ''a*b '']
   \<and> parseText ''see [[link'' = [Text_init ''see '']"
proof -
  have n: "newline \<notin> set ''__a__ and [[b''" by simp
  have c: "\<not> occurs_in ''__'' ''c''" and l: "\<not> occurs_in '']]'' ''link''" by simp_all
  have p1: "newline \<notin> set ''a*b '' \<and> list_all (\<lambda>op. \<not> occurs_in op (''a*b '' @ ''_'')) openers
            \<and> \<not> occurs_in ''__'' ''c''"
    by (simp add: openers_def)
  have p2: "newline \<notin> set ''see '' \<and> list_all (\<lambda>op. \<not> occurs_in op (''see '' @ ''['')) openers
            \<and> \<not> occurs_in '']]'' ''link''"
    by (simp add: openers_def)
  note T1 = unmatched_opener_dropped[where line="''__a__ and [[b''" and rest="''c''"
      and rest'="''link''" and acc="[Text_init ''a*b '']" and pre="''a*b ''"]
  note T2 = unmatched_opener_dropped[where rest'="''link''" and acc="[]" and pre="''see ''"]
  from T1 n have a1: "list_all (\<lambda>sp. s_text sp \<noteq> []
        \<and> list_all (\<lambda>op. \<not> occurs_in op (s_text sp)) openers) (parseText ''__a__ and [[b'')"
    by blast
  from T1 c have a2: "scan (''__'' @ ''c'') [Text_init ''a*b ''] = LoopEnd [Text_init ''a*b '']"
    by blast
  from T2 l have a3: "scan (''[['' @ ''link'') [] = LoopEnd []" by blast
  from T1 p1 have a4: "parseText (''a*b '' @ ''__'' @ ''c'') = [Text_init ''a*b '']" by auto
  from T2 p2 have a5: "parseText (''see '' @ ''[['' @ ''link'') = [Text_init ''see '']" by auto
  from n a1 c l a2 a3 a4 a5 show ?thesis by simp
qed

text \<open>
  C6 as stated fails: the text of the spans of \<open>a__b\<close> is \<open>a\<close>, without the
  underscores, and that of \<open>see [[link\<close> is \<open>see \<close>, without the brackets.
\<close>

theorem unmatched_marker_counterexample:
  "rawText (parseText ''a__b'') = ''a'' \<and> rawText (parseText ''see [[link'') = ''see ''"
  by code_simp

section \<open>Tree insertion: skipped levels\<close>

text \<open>
  C4. When \<open>insert\<close> is called with a level greater than \<open>currentNode.level + 1\<close>, it
  raises nothing and does not walk: it returns a new object, which is what the creator
  made for parent \<open>currentNode\<close> with its level overwritten by
  \<open>currentNode.level + 1\<close>, appended as the last child of \<open>currentNode\<close>; no other
  object changes.
\<close>

theorem insert_skipped_level:
  assumes "lvl > level (obj s cur) + 1" and "cur < next_ref s"
  shows "\<exists>s'. insert_node s cur lvl creator = Some (Inr (next_ref s, s'))
           \<and> next_ref s' = Suc (next_ref s)
           \<and> obj s' (next_ref s) = (creator cur)\<lparr>level := level (obj s cur) + 1\<rparr>
           \<and> obj s' cur = (obj s cur)\<lparr>children := children (obj s cur) @ [next_ref s]\<rparr>
           \<and> (\<forall>r. r \<noteq> cur \<longrightarrow> r \<noteq> next_ref s \<longrightarrow> obj s' r = obj s r)"
  using assms
  by (subst insert_node.simps)
     (auto simp: insert_clamped_def new_def set_level_def append_child_def Let_def)

theorem insert_skipped_level_witness:
  "level (obj (heap Parser_init) 0) + 1 < 2 \<and> 0 < next_ref (heap Parser_init)
   \<and> (\<exists>s'. insert_node (heap Parser_init) 0 2 (\<lambda>p. HeadingNode_init (Some p) 2 ''b'')
              = Some (Inr (1, s'))
            \<and> obj s' 1 = \<lparr>level = 1, children = [], parent = Some 0, body = HeadingNode ''b'' None\<rparr>
            \<and> children (obj s' 0) = [1])"
proof -
  have l: "level (obj (heap Parser_init) 0) + 1 < 2" and n: "0 < next_ref (heap Parser_init)"
    and nx: "next_ref (heap Parser_init) = 1"
    and o: "obj (heap Parser_init) 0 = Node_init None 0"
    by (simp_all add: Parser_init_def new_def empty_store_def Node_init_def)
  from insert_skipped_level[OF l n, of "\<lambda>p. HeadingNode_init (Some p) 2 ''b''"] l n
  show ?thesis
    by (fastforce simp: nx o HeadingNode_init_def Node_init_def)
qed

text \<open>The document of the claim: a level-1 heading, then a line with three \<open>=\<close>.\<close>

lemma skipped_level_document:
  "(case parseString Parser_init (''=a'' @ [newline] @ ''===b'') of
      Some (Inr p) \<Rightarrow>
        obj (heap p) 1 = \<lparr>level = 1, children = [2], parent = Some 0, body = HeadingNode ''a'' None\<rparr>
        \<and> obj (heap p) 2 = \<lparr>level = 2, children = [], parent = Some 1, body = HeadingNode ''b'' None\<rparr>
    | _ \<Rightarrow> False)"
  by code_simp

section \<open>Documents that raise\<close>

text \<open>
  C1. parseString does raise on some documents: on a heading line made of \<open>=\<close> only
  the heading pattern does not match and \<open>match.group(1)\<close> is an AttributeError; on a
  text line before the first heading (the empty document is one such line) the
  current heading is the root, a plain \<open>Node\<close> without \<open>textNode\<close>.
\<close>

theorem parseString_raises_AttributeError:
  "(case parseString Parser_init ''=='' of Some (Inl e) \<Rightarrow> e = AttributeError | _ \<Rightarrow> False)
   \<and> (case parseString Parser_init ''text before any heading'' of
         Some (Inl e) \<Rightarrow> e = AttributeError | _ \<Rightarrow> False)
   \<and> (case parseString Parser_init [] of Some (Inl e) \<Rightarrow> e = AttributeError | _ \<Rightarrow> False)"
  by code_simp


section \<open>Invariants of the object store\<close>

text \<open>
  Objects are allocated in increasing order of reference. In every store the parser
  builds, a parent is older than its children and the two directions of the tree agree:
  the parent of a child of \<open>a\<close> is \<open>a\<close>, and a node is among the children of its
  parent.
\<close>

definition wf_store :: "store \<Rightarrow> bool" where
  "wf_store s =
     (\<forall>a < next_ref s.
        (\<forall>q. parent (obj s a) = Some q \<longrightarrow> q < a \<and> a \<in> set (children (obj s q)))
        \<and> (\<forall>c \<in> set (children (obj s a)). a < c \<and> c < next_ref s \<and> parent (obj s c) = Some a))"

lemma insert_child_simps:
  "fst (insert_child s c cr) = next_ref s"
  "next_ref (snd (insert_child s c cr)) = Suc (next_ref s)"
  "c \<noteq> next_ref s \<Longrightarrow> obj (snd (insert_child s c cr)) x =
     (if x = next_ref s then cr c
      else if x = c then (obj s c)\<lparr>children := children (obj s c) @ [next_ref s]\<rparr>
      else obj s x)"
  by (simp_all add: insert_child_def new_def append_child_def)

lemma insert_clamped_eq:
  "c \<noteq> next_ref s \<Longrightarrow>
   insert_clamped s c cr = insert_child s c (\<lambda>p. (cr p)\<lparr>level := level (obj s c) + 1\<rparr>)"
  by (simp add: insert_clamped_def insert_child_def new_def append_child_def set_level_def
        fun_eq_iff)


lemma wf_parent:
  "wf_store s \<Longrightarrow> a < next_ref s \<Longrightarrow> parent (obj s a) = Some q \<Longrightarrow>
   q < a \<and> a \<in> set (children (obj s q))"
  unfolding wf_store_def by blast

lemma wf_child:
  "wf_store s \<Longrightarrow> a < next_ref s \<Longrightarrow> ch \<in> set (children (obj s a)) \<Longrightarrow>
   a < ch \<and> ch < next_ref s \<and> parent (obj s ch) = Some a"
  unfolding wf_store_def by blast

lemma wf_storeI:
  assumes "\<And>a q. a < next_ref s \<Longrightarrow> parent (obj s a) = Some q \<Longrightarrow>
             q < a \<and> a \<in> set (children (obj s q))"
    and "\<And>a ch. a < next_ref s \<Longrightarrow> ch \<in> set (children (obj s a)) \<Longrightarrow>
             a < ch \<and> ch < next_ref s \<and> parent (obj s ch) = Some a"
  shows "wf_store s"
  unfolding wf_store_def using assms by blast

lemma wf_insert_child:
  assumes wf: "wf_store s" and c: "c < next_ref s"
    and par: "parent (cr c) = Some c" and kids: "children (cr c) = []"
  shows "wf_store (snd (insert_child s c cr))"
proof -
  define s' where "s' = snd (insert_child s c cr)"
  have ne: "c \<noteq> next_ref s" using c by simp
  have n: "next_ref s' = Suc (next_ref s)" by (simp add: s'_def insert_child_simps)
  have o_new: "obj s' (next_ref s) = cr c" using ne by (simp add: s'_def insert_child_simps)
  have par_old: "parent (obj s' x) = parent (obj s x)" if "x \<noteq> next_ref s" for x
    using that ne by (simp add: s'_def insert_child_simps)
  have kids_old: "set (children (obj s' x)) = set (children (obj s x)) \<union> (if x = c then {next_ref s} else {})"
    if "x \<noteq> next_ref s" for x
    using that ne by (simp add: s'_def insert_child_simps)
  have "wf_store s'"
  proof (rule wf_storeI)
    fix a q assume a: "a < next_ref s'" and q: "parent (obj s' a) = Some q"
    show "q < a \<and> a \<in> set (children (obj s' q))"
    proof (cases "a = next_ref s")
      case True
      with q o_new par have "q = c" by simp
      with True c kids_old[of c] ne show ?thesis by simp
    next
      case False
      with a n have a': "a < next_ref s" by simp
      from q par_old[OF False] have "parent (obj s a) = Some q" by simp
      from wf_parent[OF wf a' this] have "q < a" "a \<in> set (children (obj s q))" by simp_all
      moreover from \<open>q < a\<close> a' have "q \<noteq> next_ref s" by simp
      ultimately show ?thesis using kids_old[of q] by simp
    qed
  next
    fix a ch assume a: "a < next_ref s'" and ch: "ch \<in> set (children (obj s' a))"
    show "a < ch \<and> ch < next_ref s' \<and> parent (obj s' ch) = Some a"
    proof (cases "a = next_ref s")
      case True
      with ch o_new kids show ?thesis by simp
    next
      case False
      with a n have a': "a < next_ref s" by simp
      from ch kids_old[OF False] consider "ch \<in> set (children (obj s a))"
        | "ch = next_ref s" "a = c" by (auto split: if_splits)
      then show ?thesis
      proof cases
        case 1
        from wf_child[OF wf a' 1] have "a < ch" "ch < next_ref s" "parent (obj s ch) = Some a"
          by simp_all
        then show ?thesis using n par_old[of ch] by simp
      next
        case 2
        then show ?thesis using c n o_new par by simp
      qed
    qed
  qed
  then show ?thesis by (simp add: s'_def)
qed


subsection \<open>The upward walk of insert\<close>

text \<open>The ancestors of a node are what the walk of insert visits.\<close>

definition parent_rel :: "store \<Rightarrow> (ref \<times> ref) set" where
  "parent_rel s = {(a, q). parent (obj s a) = Some q}"

lemma ancestor_le:
  assumes "wf_store s" and "(a, c) \<in> (parent_rel s)\<^sup>*" and "a < next_ref s"
  shows "c \<le> a"
  using assms(2)
proof (induction rule: rtrancl_induct)
  case base
  show ?case by simp
next
  case (step y z)
  from step.IH assms(3) have y: "y < next_ref s" by simp
  from step.hyps(2) have "parent (obj s y) = Some z" by (simp add: parent_rel_def)
  from wf_parent[OF assms(1) y this] step.IH show ?case by simp
qed

text \<open>The creator that insert ends up with under \<open>c\<close>: the caller's, or the clamped one.\<close>

definition placed :: "store \<Rightarrow> ref \<Rightarrow> int \<Rightarrow> (ref \<Rightarrow> node) \<Rightarrow> ref \<Rightarrow> node" where
  "placed s c lvl creator =
     (if lvl - 1 = level (obj s c) then creator
      else (\<lambda>p. (creator p)\<lparr>level := level (obj s c) + 1\<rparr>))"

lemma insert_node_walk:
  assumes wf: "wf_store s"
  shows "cur < next_ref s \<Longrightarrow>
         insert_node s cur lvl cr = Some (Inl AssertionError)
         \<or> (\<exists>c. (cur, c) \<in> (parent_rel s)\<^sup>* \<and> level (obj s c) < lvl
                \<and> insert_node s cur lvl cr = Some (Inr (insert_child s c (placed s c lvl cr))))"
proof (induction cur rule: less_induct)
  case (less cur)
  have ne: "cur \<noteq> next_ref s" using less.prems by simp
  consider (child) "lvl - 1 = level (obj s cur)"
    | (up) "lvl - 1 \<noteq> level (obj s cur)" "lvl \<le> level (obj s cur)"
    | (skip) "lvl - 1 \<noteq> level (obj s cur)" "\<not> lvl \<le> level (obj s cur)"
    by blast
  then show ?case
  proof cases
    case child
    then have "insert_node s cur lvl cr = Some (Inr (insert_child s cur (placed s cur lvl cr)))"
      by (subst insert_node.simps) (simp add: placed_def)
    moreover have "level (obj s cur) < lvl" using child by simp
    ultimately show ?thesis by blast
  next
    case up
    show ?thesis
    proof (cases "parent (obj s cur)")
      case None
      with up have "insert_node s cur lvl cr = Some (Inl AssertionError)"
        by (subst insert_node.simps) simp
      then show ?thesis by simp
    next
      case (Some p)
      with up have eq: "insert_node s cur lvl cr = insert_node s p lvl cr"
        by (subst insert_node.simps) simp
      from wf_parent[OF wf less.prems Some] have p: "p < cur" by simp
      then have "p < next_ref s" using less.prems by simp
      from less.IH[OF p this] have
        "insert_node s p lvl cr = Some (Inl AssertionError)
         \<or> (\<exists>c. (p, c) \<in> (parent_rel s)\<^sup>* \<and> level (obj s c) < lvl
               \<and> insert_node s p lvl cr = Some (Inr (insert_child s c (placed s c lvl cr))))" .
      moreover have "(cur, p) \<in> parent_rel s" using Some by (simp add: parent_rel_def)
      ultimately show ?thesis unfolding eq
        by (meson converse_rtrancl_into_rtrancl)
    qed
  next
    case skip
    then have "insert_node s cur lvl cr = Some (Inr (insert_clamped s cur cr))"
      by (subst insert_node.simps) simp
    also have "insert_clamped s cur cr = insert_child s cur (placed s cur lvl cr)"
      using skip ne by (simp add: insert_clamped_eq placed_def)
    finally show ?thesis using skip by force
  qed
qed

text \<open>Every call of insert on an allocated node of a well-formed store returns.\<close>

lemma insert_node_returns:
  assumes "wf_store s" and "cur < next_ref s"
  shows "\<exists>r. insert_node s cur lvl cr = Some r"
  using insert_node_walk[OF assms, of lvl cr] by blast

subsection \<open>Stores that grow\<close>

lemma new_simps:
  "fst (new n s) = next_ref s"
  "next_ref (snd (new n s)) = Suc (next_ref s)"
  "obj (snd (new n s)) x = (if x = next_ref s then n else obj s x)"
  by (simp_all add: new_def)

lemma set_textNode_simps:
  "next_ref (set_textNode h t r s) = next_ref s"
  "obj (set_textNode h t r s) x = (if x = h then (obj s h)\<lparr>body := HeadingNode t (Some r)\<rparr> else obj s x)"
  by (simp_all add: set_textNode_def)

definition is_heading :: "node \<Rightarrow> bool" where
  "is_heading n = (case body n of HeadingNode t tn \<Rightarrow> True | _ \<Rightarrow> False)"

definition is_text :: "node \<Rightarrow> bool" where
  "is_text n = (case body n of TextNode spans \<Rightarrow> True | _ \<Rightarrow> False)"

text \<open>
  A later store extends an earlier one when the objects of the earlier one keep their
  level, their parent and their class.
\<close>

definition extends :: "store \<Rightarrow> store \<Rightarrow> bool" where
  "extends s s' =
     (next_ref s \<le> next_ref s'
      \<and> (\<forall>x < next_ref s. level (obj s' x) = level (obj s x)
                          \<and> parent (obj s' x) = parent (obj s x)
                          \<and> is_heading (obj s' x) = is_heading (obj s x)))"

lemma extends_insert_child:
  "c < next_ref s \<Longrightarrow> extends s (snd (insert_child s c cr))"
  by (simp add: extends_def insert_child_simps is_heading_def)

lemma extends_text_root:
  assumes "body (obj s h) = HeadingNode t tn"
  shows "extends s (set_textNode h t (next_ref s) (snd (new n s)))"
  using assms by (simp add: extends_def set_textNode_simps new_simps is_heading_def)

lemma ancestors_kept:
  assumes "wf_store s" and "extends s s'" and "a < next_ref s"
    and "(a, c) \<in> (parent_rel s)\<^sup>*"
  shows "(a, c) \<in> (parent_rel s')\<^sup>*"
  using assms(4)
proof (induction rule: rtrancl_induct)
  case base
  show ?case by simp
next
  case (step y z)
  from ancestor_le[OF assms(1) step.hyps(1) assms(3)] assms(3) have "y < next_ref s" by simp
  with assms(2) have "parent (obj s' y) = parent (obj s y)" by (simp add: extends_def)
  with step.hyps(2) have "(y, z) \<in> parent_rel s'" by (simp add: parent_rel_def)
  with step.IH show ?case by (rule rtrancl_into_rtrancl)
qed

lemma chain_meet:
  assumes "(a, c) \<in> (parent_rel s)\<^sup>*" and "(a, r) \<in> (parent_rel s)\<^sup>*"
    and "parent (obj s r) = None"
  shows "(c, r) \<in> (parent_rel s)\<^sup>*"
  using assms(1)
proof (induction rule: rtrancl_induct)
  case base
  show ?case by (rule assms(2))
next
  case (step y z)
  from step.hyps(2) have yz: "parent (obj s y) = Some z" by (simp add: parent_rel_def)
  from step.IH show ?case
  proof (cases rule: converse_rtranclE)
    case base
    with yz assms(3) show ?thesis by simp
  next
    case (step z')
    from step(1) yz have "z' = z" by (auto simp: parent_rel_def)
    with step(2) show ?thesis by simp
  qed
qed

subsection \<open>The invariant of the parser\<close>

definition root_ok :: "store \<Rightarrow> ref \<Rightarrow> bool" where
  "root_ok s rt =
     (rt < next_ref s \<and> level (obj s rt) = 0 \<and> parent (obj s rt) = None
      \<and> \<not> is_heading (obj s rt))"

definition heading_levels :: "store \<Rightarrow> ref \<Rightarrow> bool" where
  "heading_levels s rt =
     (\<forall>a < next_ref s. is_heading (obj s a) \<longrightarrow>
        (\<exists>q. parent (obj s a) = Some q \<and> level (obj s a) = level (obj s q) + 1
              \<and> (q = rt \<or> is_heading (obj s q))))"

definition heading_cursor_ok :: "store \<Rightarrow> ref \<Rightarrow> ref \<Rightarrow> bool" where
  "heading_cursor_ok s rt h = (h < next_ref s \<and> (h = rt \<or> is_heading (obj s h)))"

definition text_cursor_ok :: "store \<Rightarrow> ref \<Rightarrow> ref option \<Rightarrow> bool" where
  "text_cursor_ok s h ct =
     (\<forall>c. ct = Some c \<longrightarrow>
        c < next_ref s
        \<and> (\<exists>t r. body (obj s h) = HeadingNode t (Some r) \<and> r < next_ref s
                  \<and> parent (obj s r) = None \<and> (c, r) \<in> (parent_rel s)\<^sup>*))"

text \<open>
  The heading tree and the text trees do not mix: a node whose parent is the root or a
  heading is a heading, and the text cursor is neither the root nor a heading.
\<close>

definition heading_children :: "store \<Rightarrow> ref \<Rightarrow> bool" where
  "heading_children s rt =
     (\<forall>a < next_ref s. \<forall>q. parent (obj s a) = Some q \<longrightarrow>
        (q = rt \<or> is_heading (obj s q)) \<longrightarrow> is_heading (obj s a))"

definition text_cursor_side :: "store \<Rightarrow> ref \<Rightarrow> ref option \<Rightarrow> bool" where
  "text_cursor_side s rt ct = (\<forall>c. ct = Some c \<longrightarrow> c \<noteq> rt \<and> \<not> is_heading (obj s c))"

text \<open>The nodes without a parent, the root and the text-tree roots, have level 0.\<close>

definition roots_level0 :: "store \<Rightarrow> bool" where
  "roots_level0 s = (\<forall>a < next_ref s. parent (obj s a) = None \<longrightarrow> level (obj s a) = 0)"

definition inv :: "Parser \<Rightarrow> bool" where
  "inv p =
     (wf_store (heap p) \<and> root_ok (heap p) (root p) \<and> heading_levels (heap p) (root p)
      \<and> heading_cursor_ok (heap p) (root p) (currentHeading p)
      \<and> text_cursor_ok (heap p) (currentHeading p) (currentText p)
      \<and> heading_children (heap p) (root p)
      \<and> text_cursor_side (heap p) (root p) (currentText p)
      \<and> roots_level0 (heap p))"

lemma root_ok_extends: "root_ok s rt \<Longrightarrow> extends s s' \<Longrightarrow> root_ok s' rt"
  by (auto simp: root_ok_def extends_def)

lemma heading_cursor_ok_extends:
  "heading_cursor_ok s rt h \<Longrightarrow> root_ok s rt \<Longrightarrow> extends s s' \<Longrightarrow> heading_cursor_ok s' rt h"
  by (auto simp: heading_cursor_ok_def extends_def)

lemma heading_levels_extends:
  assumes hl: "heading_levels s rt" and wf: "wf_store s" and rt: "root_ok s rt"
    and ex: "extends s s'"
    and fresh: "\<And>a. next_ref s \<le> a \<Longrightarrow> a < next_ref s' \<Longrightarrow> is_heading (obj s' a) \<Longrightarrow>
                 \<exists>q. parent (obj s' a) = Some q \<and> level (obj s' a) = level (obj s' q) + 1
                     \<and> (q = rt \<or> is_heading (obj s' q))"
  shows "heading_levels s' rt"
  unfolding heading_levels_def
proof (intro allI impI)
  fix a assume a: "a < next_ref s'" and h: "is_heading (obj s' a)"
  show "\<exists>q. parent (obj s' a) = Some q \<and> level (obj s' a) = level (obj s' q) + 1
            \<and> (q = rt \<or> is_heading (obj s' q))"
  proof (cases "a < next_ref s")
    case True
    with ex h have "is_heading (obj s a)" by (simp add: extends_def)
    with hl True obtain q where q: "parent (obj s a) = Some q"
      "level (obj s a) = level (obj s q) + 1" "q = rt \<or> is_heading (obj s q)"
      unfolding heading_levels_def by blast
    from wf_parent[OF wf True q(1)] True have qa: "q < next_ref s" by simp
    from ex True qa q show ?thesis by (simp add: extends_def)
  next
    case False
    with fresh[of a] a h show ?thesis by simp
  qed
qed

lemma text_cursor_ok_extends:
  assumes "text_cursor_ok s h ct" and "wf_store s" and "extends s s'"
    and "body (obj s' h) = body (obj s h)"
  shows "text_cursor_ok s' h ct"
  unfolding text_cursor_ok_def
proof (intro allI impI)
  fix c assume c: "ct = Some c"
  with assms(1) obtain t r where c': "c < next_ref s"
    and b: "body (obj s h) = HeadingNode t (Some r)" and r: "r < next_ref s"
    and pr: "parent (obj s r) = None" and anc: "(c, r) \<in> (parent_rel s)\<^sup>*"
    unfolding text_cursor_ok_def by blast
  from ancestors_kept[OF assms(2,3) c' anc] have "(c, r) \<in> (parent_rel s')\<^sup>*" .
  moreover from assms(3) r pr have "parent (obj s' r) = None" by (simp add: extends_def)
  moreover from assms(3) c' r have "c < next_ref s'" "r < next_ref s'" by (simp_all add: extends_def)
  ultimately show "c < next_ref s' \<and> (\<exists>t r. body (obj s' h) = HeadingNode t (Some r) \<and> r < next_ref s'
                  \<and> parent (obj s' r) = None \<and> (c, r) \<in> (parent_rel s')\<^sup>*)"
    using b assms(4) by auto
qed

lemma heading_children_extends:
  assumes hk: "heading_children s rt" and wf: "wf_store s" and ex: "extends s s'"
    and fresh: "\<And>a q. next_ref s \<le> a \<Longrightarrow> a < next_ref s' \<Longrightarrow> parent (obj s' a) = Some q \<Longrightarrow>
                 q = rt \<or> is_heading (obj s' q) \<Longrightarrow> is_heading (obj s' a)"
  shows "heading_children s' rt"
  unfolding heading_children_def
proof (intro allI impI)
  fix a q assume a: "a < next_ref s'" and q: "parent (obj s' a) = Some q"
    and k: "q = rt \<or> is_heading (obj s' q)"
  show "is_heading (obj s' a)"
  proof (cases "a < next_ref s")
    case True
    with ex q have q': "parent (obj s a) = Some q" by (simp add: extends_def)
    from wf_parent[OF wf True q'] True have "q < next_ref s" by simp
    with ex k have "q = rt \<or> is_heading (obj s q)" by (simp add: extends_def)
    with hk True q' have "is_heading (obj s a)" unfolding heading_children_def by blast
    with ex True show ?thesis by (simp add: extends_def)
  next
    case False
    with fresh[of a q] a q k show ?thesis by simp
  qed
qed

lemma text_cursor_side_extends:
  assumes "text_cursor_side s rt ct" and "\<forall>c. ct = Some c \<longrightarrow> c < next_ref s"
    and "extends s s'"
  shows "text_cursor_side s' rt ct"
  using assms by (auto simp: text_cursor_side_def extends_def)

text \<open>The ancestors of a node of a text tree are nodes of that text tree.\<close>

lemma text_side_ancestor:
  assumes wf: "wf_store s" and hk: "heading_children s rt"
    and x: "x < next_ref s" "x \<noteq> rt" "\<not> is_heading (obj s x)"
    and anc: "(x, c) \<in> (parent_rel s)\<^sup>*"
  shows "c \<noteq> rt \<and> \<not> is_heading (obj s c)"
  using anc
proof (induction rule: rtrancl_induct)
  case base
  from x show ?case by simp
next
  case (step y z)
  from ancestor_le[OF wf step.hyps(1) x(1)] x(1) have y: "y < next_ref s" by simp
  from step.hyps(2) have yz: "parent (obj s y) = Some z" by (simp add: parent_rel_def)
  show ?case
  proof (rule ccontr)
    assume "\<not> (z \<noteq> rt \<and> \<not> is_heading (obj s z))"
    then have "z = rt \<or> is_heading (obj s z)" by blast
    with hk y yz have "is_heading (obj s y)" unfolding heading_children_def by blast
    with step.IH show False by simp
  qed
qed

lemma grow_heading_children:
  assumes wf: "wf_store s" and hk: "heading_children s rt" and c: "c < next_ref s"
    and n: "parent (cr c) = Some c"
    and side: "c = rt \<or> is_heading (obj s c) \<Longrightarrow> is_heading (cr c)"
  shows "heading_children (snd (insert_child s c cr)) rt"
proof (rule heading_children_extends[OF hk wf extends_insert_child[OF c]])
  fix a q assume "next_ref s \<le> a" and "a < next_ref (snd (insert_child s c cr))"
    and q: "parent (obj (snd (insert_child s c cr)) a) = Some q"
    and k: "q = rt \<or> is_heading (obj (snd (insert_child s c cr)) q)"
  then have a: "a = next_ref s" by (simp add: insert_child_simps)
  have ne: "c \<noteq> next_ref s" using c by simp
  from q a ne n have qc: "q = c" by (simp add: insert_child_simps)
  have "is_heading (obj (snd (insert_child s c cr)) c) = is_heading (obj s c)"
    using ne by (simp add: insert_child_simps is_heading_def)
  with k qc have "c = rt \<or> is_heading (obj s c)" by simp
  from side[OF this] show "is_heading (obj (snd (insert_child s c cr)) a)"
    using ne by (simp add: a insert_child_simps)
qed

lemma roots_level0_extends:
  assumes r0: "roots_level0 s" and ex: "extends s s'"
    and fresh: "\<And>a. next_ref s \<le> a \<Longrightarrow> a < next_ref s' \<Longrightarrow> parent (obj s' a) = None \<Longrightarrow>
                 level (obj s' a) = 0"
  shows "roots_level0 s'"
  unfolding roots_level0_def
proof (intro allI impI)
  fix a assume a: "a < next_ref s'" and p: "parent (obj s' a) = None"
  show "level (obj s' a) = 0"
  proof (cases "a < next_ref s")
    case True
    with ex p have "parent (obj s a) = None" "level (obj s' a) = level (obj s a)"
      by (simp_all add: extends_def)
    with r0 True show ?thesis by (simp add: roots_level0_def)
  next
    case False
    with fresh[of a] a p show ?thesis by simp
  qed
qed

lemma grow_roots_level0:
  assumes r0: "roots_level0 s" and c: "c < next_ref s" and n: "parent (cr c) = Some c"
  shows "roots_level0 (snd (insert_child s c cr))"
proof (rule roots_level0_extends[OF r0 extends_insert_child[OF c]])
  fix a assume "next_ref s \<le> a" and "a < next_ref (snd (insert_child s c cr))"
    and p: "parent (obj (snd (insert_child s c cr)) a) = None"
  then have "a = next_ref s" by (simp add: insert_child_simps)
  with p c n have False by (simp add: insert_child_simps)
  then show "level (obj (snd (insert_child s c cr)) a) = 0" ..
qed

lemma inv_init: "inv Parser_init"
  by (simp add: inv_def Parser_init_def new_def empty_store_def Node_init_def wf_store_def
        root_ok_def heading_levels_def heading_cursor_ok_def text_cursor_ok_def is_heading_def
        heading_children_def text_cursor_side_def roots_level0_def)

lemma heading_ancestor:
  assumes wf: "wf_store s" and rt: "root_ok s rt" and hl: "heading_levels s rt"
    and h: "heading_cursor_ok s rt h" and anc: "(h, c) \<in> (parent_rel s)\<^sup>*"
  shows "c < next_ref s \<and> (c = rt \<or> is_heading (obj s c))"
  using anc
proof (induction rule: rtrancl_induct)
  case base
  from h show ?case by (simp add: heading_cursor_ok_def)
next
  case (step y z)
  from step.hyps(2) have yz: "parent (obj s y) = Some z" by (simp add: parent_rel_def)
  from step.IH have y: "y < next_ref s" and k: "y = rt \<or> is_heading (obj s y)" by simp_all
  from rt yz have "y \<noteq> rt" by (auto simp: root_ok_def)
  with k have "is_heading (obj s y)" by simp
  with hl y obtain q where "parent (obj s y) = Some q" "q = rt \<or> is_heading (obj s q)"
    unfolding heading_levels_def by blast
  with yz have "z = rt \<or> is_heading (obj s z)" by simp
  moreover from wf_parent[OF wf y yz] y have "z < next_ref s" by simp
  ultimately show ?case by simp
qed

lemma placed_node:
  assumes "level (obj s c) < lvl"
  shows "placed s c lvl (\<lambda>par. \<lparr>level = lvl, children = [], parent = Some par, body = b\<rparr>) c
         = \<lparr>level = level (obj s c) + 1, children = [], parent = Some c, body = b\<rparr>"
  using assms by (simp add: placed_def)

text \<open>What a new child under an allocated node keeps of the invariant.\<close>

lemma grow_store:
  assumes wf: "wf_store s" and rt: "root_ok s rt" and hl: "heading_levels s rt"
    and c: "c < next_ref s"
    and n: "cr c = \<lparr>level = l, children = [], parent = Some c, body = b\<rparr>"
    and hd: "is_heading (cr c) \<Longrightarrow> l = level (obj s c) + 1 \<and> (c = rt \<or> is_heading (obj s c))"
  shows "wf_store (snd (insert_child s c cr))"
    and "root_ok (snd (insert_child s c cr)) rt"
    and "heading_levels (snd (insert_child s c cr)) rt"
proof -
  have ne: "c \<noteq> next_ref s" using c by simp
  have ex: "extends s (snd (insert_child s c cr))" by (rule extends_insert_child[OF c])
  show "wf_store (snd (insert_child s c cr))"
    by (rule wf_insert_child[OF wf c]) (simp_all add: n)
  show "root_ok (snd (insert_child s c cr)) rt" by (rule root_ok_extends[OF rt ex])
  show "heading_levels (snd (insert_child s c cr)) rt"
  proof (rule heading_levels_extends[OF hl wf rt ex])
    fix a assume "next_ref s \<le> a" and "a < next_ref (snd (insert_child s c cr))"
      and h: "is_heading (obj (snd (insert_child s c cr)) a)"
    then have a: "a = next_ref s" by (simp add: insert_child_simps)
    with h ne have "is_heading (cr c)" by (simp add: insert_child_simps)
    from hd[OF this] have l: "l = level (obj s c) + 1" and k: "c = rt \<or> is_heading (obj s c)"
      by simp_all
    have "is_heading (obj (snd (insert_child s c cr)) c) = is_heading (obj s c)"
      using ne by (simp add: insert_child_simps is_heading_def)
    with k l show "\<exists>q. parent (obj (snd (insert_child s c cr)) a) = Some q
             \<and> level (obj (snd (insert_child s c cr)) a) = level (obj (snd (insert_child s c cr)) q) + 1
             \<and> (q = rt \<or> is_heading (obj (snd (insert_child s c cr)) q))"
      using ne by (simp add: a insert_child_simps n)
  qed
qed

subsection \<open>Every line keeps the invariant\<close>

lemma HeadingNode_init_record:
  "HeadingNode_init (Some par) lvl t
   = \<lparr>level = lvl, children = [], parent = Some par, body = HeadingNode t None\<rparr>"
  by (simp add: HeadingNode_init_def Node_init_def)

lemma TextNode_init_record:
  "TextNode_init (Some par) lvl t
   = \<lparr>level = lvl, children = [], parent = Some par, body = TextNode t\<rparr>"
  by (simp add: TextNode_init_def Node_init_def)

lemma parseHeading_step:
  assumes inv: "inv p"
  shows "(\<exists>e. parseHeading p line = Some (Inl e))
       \<or> (\<exists>p'. parseHeading p line = Some (Inr p') \<and> inv p' \<and> root p' = root p)"
proof (cases "heading_match line")
  case None
  then show ?thesis by (simp add: parseHeading_def)
next
  case (Some g)
  obtain g1 g2 where g: "g = (g1, g2)" by (cases g)
  define s where "s = heap p"
  define lvl where "lvl = int (length g1)"
  define b where "b = HeadingNode (strip g2) None"
  define cr where "cr = (\<lambda>par. \<lparr>level = lvl, children = [], parent = Some par, body = b\<rparr>)"
  have cr: "(\<lambda>par. HeadingNode_init (Some par) lvl (strip g2)) = cr"
    by (simp add: cr_def b_def HeadingNode_init_record)
  from inv have wf: "wf_store s" and rt: "root_ok s (root p)" and hl: "heading_levels s (root p)"
    and hc: "heading_cursor_ok s (root p) (currentHeading p)"
    and hk: "heading_children s (root p)" and r0: "roots_level0 s"
    by (simp_all add: inv_def s_def)
  from hc have cur: "currentHeading p < next_ref s" by (simp add: heading_cursor_ok_def)
  have ph: "parseHeading p line =
              (case insert_node s (currentHeading p) lvl cr of
                 None \<Rightarrow> None
               | Some (Inl e) \<Rightarrow> Some (Inl e)
               | Some (Inr (n, s')) \<Rightarrow>
                   Some (Inr (p\<lparr>heap := s', currentHeading := n, currentText := None\<rparr>)))"
    using Some g by (simp add: parseHeading_def Let_def lvl_def s_def cr[unfolded lvl_def])
  from insert_node_walk[OF wf cur, of lvl cr]
  show ?thesis
  proof
    assume "insert_node s (currentHeading p) lvl cr = Some (Inl AssertionError)"
    with ph show ?thesis by simp
  next
    assume "\<exists>c. (currentHeading p, c) \<in> (parent_rel s)\<^sup>* \<and> level (obj s c) < lvl
              \<and> insert_node s (currentHeading p) lvl cr
                  = Some (Inr (insert_child s c (placed s c lvl cr)))"
    then obtain c where anc: "(currentHeading p, c) \<in> (parent_rel s)\<^sup>*"
      and lc: "level (obj s c) < lvl"
      and ins: "insert_node s (currentHeading p) lvl cr
                  = Some (Inr (insert_child s c (placed s c lvl cr)))" by blast
    define s' where "s' = snd (insert_child s c (placed s c lvl cr))"
    define p' where "p' = p\<lparr>heap := s', currentHeading := next_ref s, currentText := None\<rparr>"
    have res: "parseHeading p line = Some (Inr p')"
      unfolding ph ins
      by (simp add: p'_def s'_def case_prod_beta insert_child_simps)
    from heading_ancestor[OF wf rt hl hc anc]
    have c: "c < next_ref s" and k: "c = root p \<or> is_heading (obj s c)" by simp_all
    have n: "placed s c lvl cr c
             = \<lparr>level = level (obj s c) + 1, children = [], parent = Some c, body = b\<rparr>"
      unfolding cr_def by (rule placed_node[OF lc])
    have g1: "wf_store s'" and g2: "root_ok s' (root p)" and g3: "heading_levels s' (root p)"
      unfolding s'_def
      using grow_store[where cr="placed s c lvl cr" and c=c, OF wf rt hl c n] k by simp_all
    have ne: "c \<noteq> next_ref s" using c by simp
    have "is_heading (obj s' (next_ref s))"
      using ne by (simp add: s'_def insert_child_simps n is_heading_def b_def)
    then have g4: "heading_cursor_ok s' (root p) (next_ref s)"
      by (simp add: heading_cursor_ok_def s'_def insert_child_simps)
    have g5: "heading_children s' (root p)"
      unfolding s'_def
      by (rule grow_heading_children[OF wf hk c]) (simp_all add: n is_heading_def b_def)
    have g6: "roots_level0 s'"
      unfolding s'_def by (rule grow_roots_level0[OF r0 c]) (simp add: n)
    have "inv p'"
      using g1 g2 g3 g4 g5 g6
      by (simp add: inv_def p'_def text_cursor_ok_def text_cursor_side_def)
    with res show ?thesis by (simp add: p'_def)
  qed
qed

lemma wf_text_root:
  assumes wf: "wf_store s"
  shows "wf_store (set_textNode h t (next_ref s) (snd (new (Node_init None 0) s)))"
proof (rule wf_storeI)
  let ?s' = "set_textNode h t (next_ref s) (snd (new (Node_init None 0) s))"
  have par: "parent (obj ?s' x) = (if x = next_ref s then None else parent (obj s x))" for x
    by (simp add: set_textNode_simps new_simps Node_init_def)
  have kids: "children (obj ?s' x) = (if x = next_ref s then [] else children (obj s x))" for x
    by (simp add: set_textNode_simps new_simps Node_init_def)
  have n: "next_ref ?s' = Suc (next_ref s)" by (simp add: set_textNode_simps new_simps)
  {
    fix a q assume a: "a < next_ref ?s'" and q: "parent (obj ?s' a) = Some q"
    from q par[of a] have ne: "a \<noteq> next_ref s" and q': "parent (obj s a) = Some q"
      by (auto split: if_splits)
    with a n have a': "a < next_ref s" by simp
    from wf_parent[OF wf a' q'] have "q < a" "a \<in> set (children (obj s q))" by simp_all
    moreover with a' have "q \<noteq> next_ref s" by simp
    ultimately show "q < a \<and> a \<in> set (children (obj ?s' q))" by (simp add: kids)
  }
  {
    fix a ch assume a: "a < next_ref ?s'" and ch: "ch \<in> set (children (obj ?s' a))"
    from ch kids[of a] have ne: "a \<noteq> next_ref s" and ch': "ch \<in> set (children (obj s a))"
      by (auto split: if_splits)
    with a n have a': "a < next_ref s" by simp
    from wf_child[OF wf a' ch'] have "a < ch" "ch < next_ref s" "parent (obj s ch) = Some a"
      by simp_all
    then show "a < ch \<and> ch < next_ref ?s' \<and> parent (obj ?s' ch) = Some a"
      by (simp add: n par)
  }
qed

lemma ensure_text_root_inv:
  assumes inv: "inv p" and e: "ensure_text_root p = Inr (pe, cur)"
  shows "inv pe \<and> currentText pe = Some cur \<and> root pe = root p
         \<and> currentHeading pe = currentHeading p"
proof -
  define s where "s = heap p"
  define h where "h = currentHeading p"
  from inv have wf: "wf_store s" and rt: "root_ok s (root p)" and hl: "heading_levels s (root p)"
    and hc: "heading_cursor_ok s (root p) h"
    and tc: "text_cursor_ok s h (currentText p)"
    and hk: "heading_children s (root p)" and r0: "roots_level0 s"
    by (simp_all add: inv_def s_def h_def)
  from e obtain t tn where b: "body (obj s h) = HeadingNode t tn"
    by (cases "body (obj s h)") (simp_all add: ensure_text_root_def s_def h_def)
  show ?thesis
  proof (cases "\<exists>r c. tn = Some r \<and> currentText p = Some c")
    case True
    then obtain r c where "tn = Some r" "currentText p = Some c" by blast
    with e b have "pe = p" "cur = c"
      by (simp_all add: ensure_text_root_def s_def h_def)
    with inv \<open>currentText p = Some c\<close> show ?thesis by simp
  next
    case False
    define s' where "s' = set_textNode h t (next_ref s) (snd (new (Node_init None 0) s))"
    from False e b have pe: "pe = p\<lparr>heap := s', currentText := Some (next_ref s)\<rparr>"
      and cur: "cur = next_ref s"
      by (auto simp: ensure_text_root_def s_def h_def s'_def new_def
            split: option.splits)
    from hc have h: "h < next_ref s" by (simp add: heading_cursor_ok_def)
    have ex: "extends s s'" unfolding s'_def by (rule extends_text_root[OF b])
    have g1: "wf_store s'" unfolding s'_def by (rule wf_text_root[OF wf])
    have g2: "root_ok s' (root p)" by (rule root_ok_extends[OF rt ex])
    have g3: "heading_levels s' (root p)"
    proof (rule heading_levels_extends[OF hl wf rt ex])
      fix a assume "next_ref s \<le> a" and "a < next_ref s'" and hd: "is_heading (obj s' a)"
      then have "a = next_ref s" by (simp add: s'_def set_textNode_simps new_simps)
      with hd h have False
        by (simp add: s'_def set_textNode_simps new_simps is_heading_def Node_init_def)
      then show "\<exists>q. parent (obj s' a) = Some q \<and> level (obj s' a) = level (obj s' q) + 1
                    \<and> (q = root p \<or> is_heading (obj s' q))" ..
    qed
    have g4: "heading_cursor_ok s' (root p) h"
      by (rule heading_cursor_ok_extends[OF hc rt ex])
    have g5: "text_cursor_ok s' h (Some (next_ref s))"
      using h by (simp add: text_cursor_ok_def s'_def set_textNode_simps new_simps Node_init_def)
    have g6: "heading_children s' (root p)"
    proof (rule heading_children_extends[OF hk wf ex])
      fix a q assume "next_ref s \<le> a" and "a < next_ref s'"
        and q: "parent (obj s' a) = Some q"
      then have "a = next_ref s" by (simp add: s'_def set_textNode_simps new_simps)
      with q h have False
        by (simp add: s'_def set_textNode_simps new_simps Node_init_def)
      then show "is_heading (obj s' a)" ..
    qed
    from rt have "root p < next_ref s" by (simp add: root_ok_def)
    then have g7: "text_cursor_side s' (root p) (Some (next_ref s))"
      using h
      by (simp add: text_cursor_side_def s'_def set_textNode_simps new_simps is_heading_def
            Node_init_def)
    have g8: "roots_level0 s'"
    proof (rule roots_level0_extends[OF r0 ex])
      fix a assume "next_ref s \<le> a" and "a < next_ref s'"
      then have "a = next_ref s" by (simp add: s'_def set_textNode_simps new_simps)
      with h show "level (obj s' a) = 0"
        by (simp add: s'_def set_textNode_simps new_simps Node_init_def)
    qed
    show ?thesis
      using g1 g2 g3 g4 g5 g6 g7 g8 by (simp add: inv_def pe cur h_def)
  qed
qed

lemma text_grow:
  assumes inv: "inv pe" and ct: "currentText pe = Some cur"
    and anc: "(cur, c) \<in> (parent_rel (heap pe))\<^sup>*"
    and n: "cr c = \<lparr>level = l, children = [], parent = Some c, body = TextNode spans\<rparr>"
  shows "inv (pe\<lparr>heap := snd (insert_child (heap pe) c cr)\<rparr>)"
    and "inv (pe\<lparr>heap := snd (insert_child (heap pe) c cr),
                  currentText := Some (next_ref (heap pe))\<rparr>)"
proof -
  define s where "s = heap pe"
  define h where "h = currentHeading pe"
  define s' where "s' = snd (insert_child s c cr)"
  from inv have wf: "wf_store s" and rt: "root_ok s (root pe)"
    and hl: "heading_levels s (root pe)"
    and hc: "heading_cursor_ok s (root pe) h"
    and tc: "text_cursor_ok s h (Some cur)"
    and hk: "heading_children s (root pe)"
    and ts: "text_cursor_side s (root pe) (Some cur)" and r0: "roots_level0 s"
    by (simp_all add: inv_def s_def h_def ct[symmetric])
  from tc obtain t r where cur: "cur < next_ref s"
    and b: "body (obj s h) = HeadingNode t (Some r)" and r: "r < next_ref s"
    and pr: "parent (obj s r) = None" and cr': "(cur, r) \<in> (parent_rel s)\<^sup>*"
    unfolding text_cursor_ok_def by blast
  from ancestor_le[OF wf anc[folded s_def] cur] cur have c: "c < next_ref s" by simp
  then have ne: "c \<noteq> next_ref s" by simp
  from hc have h: "h < next_ref s" by (simp add: heading_cursor_ok_def)
  have nh: "\<not> is_heading (cr c)" by (simp add: n is_heading_def)
  have ex: "extends s s'" unfolding s'_def by (rule extends_insert_child[OF c])
  have g1: "wf_store s'" and g2: "root_ok s' (root pe)" and g3: "heading_levels s' (root pe)"
    unfolding s'_def
    using grow_store[where cr=cr and c=c, OF wf rt hl c n] nh by simp_all
  have g4: "heading_cursor_ok s' (root pe) h"
    by (rule heading_cursor_ok_extends[OF hc rt ex])
  have bs: "body (obj s' h) = body (obj s h)"
    using h ne by (simp add: s'_def insert_child_simps)
  have g5: "text_cursor_ok s' h (Some cur)"
    by (rule text_cursor_ok_extends[OF tc wf ex bs])
  have cr_s: "(c, r) \<in> (parent_rel s)\<^sup>*"
    by (rule chain_meet[OF anc[folded s_def] cr' pr])
  have "(c, r) \<in> (parent_rel s')\<^sup>*" by (rule ancestors_kept[OF wf ex c cr_s])
  moreover have "(next_ref s, c) \<in> parent_rel s'"
    using ne by (simp add: parent_rel_def s'_def insert_child_simps n)
  ultimately have nr: "(next_ref s, r) \<in> (parent_rel s')\<^sup>*"
    by (rule converse_rtrancl_into_rtrancl[rotated])
  have pr': "parent (obj s' r) = None" using ex r pr by (simp add: extends_def)
  have g6: "text_cursor_ok s' h (Some (next_ref s))"
    using b bs r pr' nr by (simp add: text_cursor_ok_def s'_def insert_child_simps)
  from ts have "cur \<noteq> root pe" "\<not> is_heading (obj s cur)"
    by (simp_all add: text_cursor_side_def)
  from text_side_ancestor[OF wf hk cur this anc[folded s_def]]
  have cside: "c \<noteq> root pe \<and> \<not> is_heading (obj s c)" .
  have g7: "heading_children s' (root pe)"
    unfolding s'_def
    by (rule grow_heading_children[OF wf hk c]) (use cside in \<open>simp_all add: n\<close>)
  have g8: "text_cursor_side s' (root pe) (Some cur)"
    by (rule text_cursor_side_extends[OF ts _ ex]) (simp add: cur)
  from rt have "root pe < next_ref s" by (simp add: root_ok_def)
  then have g9: "text_cursor_side s' (root pe) (Some (next_ref s))"
    using ne by (simp add: text_cursor_side_def s'_def insert_child_simps n is_heading_def)
  have g10: "roots_level0 s'"
    unfolding s'_def by (rule grow_roots_level0[OF r0 c]) (simp add: n)
  show "inv (pe\<lparr>heap := snd (insert_child (heap pe) c cr)\<rparr>)"
    using g1 g2 g3 g4 g5 g7 g8 g10 by (simp add: inv_def s'_def s_def h_def ct)
  show "inv (pe\<lparr>heap := snd (insert_child (heap pe) c cr),
                  currentText := Some (next_ref (heap pe))\<rparr>)"
    using g1 g2 g3 g4 g6 g7 g9 g10 by (simp add: inv_def s'_def s_def h_def)
qed

lemma parseTextLine_step:
  assumes inv: "inv p"
  shows "(\<exists>e. parseTextLine p line = Some (Inl e))
       \<or> (\<exists>p'. parseTextLine p line = Some (Inr p') \<and> inv p' \<and> root p' = root p)"
proof (cases "ensure_text_root p")
  case (Inl e)
  then show ?thesis by (simp add: parseTextLine_def)
next
  case (Inr x)
  obtain pe cur where x: "x = (pe, cur)" by (cases x)
  from ensure_text_root_inv[OF inv Inr[unfolded x]]
  have ipe: "inv pe" and ct: "currentText pe = Some cur" and rpe: "root pe = root p" by simp_all
  define s where "s = heap pe"
  from ipe have wf: "wf_store s" and tc: "text_cursor_ok s (currentHeading pe) (Some cur)"
    by (simp_all add: inv_def s_def ct[symmetric])
  from tc have cur: "cur < next_ref s" by (simp add: text_cursor_ok_def)
  show ?thesis
  proof (cases "bullet_match line")
    case None
    define cr where "cr = (\<lambda>par. \<lparr>level = 1, children = [], parent = Some par,
                                   body = TextNode (parseText line)\<rparr>)"
    have res: "parseTextLine p line = Some (Inr (pe\<lparr>heap := snd (insert_child s cur cr)\<rparr>))"
      using Inr x None
      by (simp add: parseTextLine_def insert_child_def new_def cr_def s_def TextNode_init_record)
    have "inv (pe\<lparr>heap := snd (insert_child (heap pe) cur cr)\<rparr>)"
      by (rule text_grow(1)[OF ipe ct, where c=cur and l=1 and spans="parseText line"])
         (simp_all add: cr_def)
    with res rpe show ?thesis by (simp add: s_def)
  next
    case (Some g)
    obtain g1 g2 where g: "g = (g1, g2)" by (cases g)
    define lvl where "lvl = int (length g1) + 1"
    define cr where "cr = (\<lambda>par. \<lparr>level = lvl, children = [], parent = Some par,
                                   body = TextNode (parseText g2)\<rparr>)"
    have ptl: "parseTextLine p line =
                 (case insert_node s cur lvl cr of
                    None \<Rightarrow> None
                  | Some (Inl e) \<Rightarrow> Some (Inl e)
                  | Some (Inr (n, s')) \<Rightarrow> Some (Inr (pe\<lparr>heap := s', currentText := Some n\<rparr>)))"
      using Inr x Some g
      by (simp add: parseTextLine_def Let_def s_def cr_def lvl_def TextNode_init_record)
    from insert_node_walk[OF wf cur, of lvl cr]
    show ?thesis
    proof
      assume "insert_node s cur lvl cr = Some (Inl AssertionError)"
      with ptl show ?thesis by simp
    next
      assume "\<exists>c. (cur, c) \<in> (parent_rel s)\<^sup>* \<and> level (obj s c) < lvl
                \<and> insert_node s cur lvl cr = Some (Inr (insert_child s c (placed s c lvl cr)))"
      then obtain c where anc: "(cur, c) \<in> (parent_rel s)\<^sup>*"
        and lc: "level (obj s c) < lvl"
        and ins: "insert_node s cur lvl cr = Some (Inr (insert_child s c (placed s c lvl cr)))"
        by blast
      have n: "placed s c lvl cr c
               = \<lparr>level = level (obj s c) + 1, children = [], parent = Some c,
                   body = TextNode (parseText g2)\<rparr>"
        unfolding cr_def by (rule placed_node[OF lc])
      have res: "parseTextLine p line
                 = Some (Inr (pe\<lparr>heap := snd (insert_child s c (placed s c lvl cr)),
                                 currentText := Some (next_ref s)\<rparr>))"
        unfolding ptl ins by (simp add: case_prod_beta insert_child_simps)
      have "inv (pe\<lparr>heap := snd (insert_child (heap pe) c (placed s c lvl cr)),
                      currentText := Some (next_ref (heap pe))\<rparr>)"
        by (rule text_grow(2)[OF ipe ct anc[unfolded s_def]]) (rule n)
      with res rpe show ?thesis by (simp add: s_def)
    qed
  qed
qed

lemma parseLine_step:
  assumes "inv p"
  shows "(\<exists>e. parseLine p line = Some (Inl e))
       \<or> (\<exists>p'. parseLine p line = Some (Inr p') \<and> inv p' \<and> root p' = root p)"
  using parseHeading_step[OF assms, of line] parseTextLine_step[OF assms, of line]
  by (simp add: parseLine_def)

lemma parseLines_inv:
  assumes "inv p"
  shows "(\<exists>e. parseLines p ls = Some (Inl e))
       \<or> (\<exists>p'. parseLines p ls = Some (Inr p') \<and> inv p' \<and> root p' = root p)"
  using assms
proof (induction ls arbitrary: p)
  case Nil
  then show ?case by simp
next
  case (Cons l ls)
  from parseLine_step[OF Cons.prems, of l] show ?case
  proof
    assume "\<exists>e. parseLine p l = Some (Inl e)"
    then show ?thesis by auto
  next
    assume "\<exists>p'. parseLine p l = Some (Inr p') \<and> inv p' \<and> root p' = root p"
    then obtain p' where p': "parseLine p l = Some (Inr p')" "inv p'" "root p' = root p" by blast
    from Cons.IH[OF p'(2)] p' show ?thesis by auto
  qed
qed

section \<open>What a line adds to the store\<close>

lemma parseLines_append:
  "parseLines p (xs @ ys) =
     (case parseLines p xs of
        None \<Rightarrow> None
      | Some (Inl e) \<Rightarrow> Some (Inl e)
      | Some (Inr p') \<Rightarrow> parseLines p' ys)"
  by (induction xs arbitrary: p) (auto split: option.splits sum.splits)

text \<open>
  A later store grows out of an earlier one when the objects of the earlier one keep
  their level and their parent, and their body too, except that a heading without a
  text tree may have got one.
\<close>

definition grows :: "store \<Rightarrow> store \<Rightarrow> bool" where
  "grows s s' =
     (next_ref s \<le> next_ref s'
      \<and> (\<forall>x < next_ref s.
            level (obj s' x) = level (obj s x)
            \<and> parent (obj s' x) = parent (obj s x)
            \<and> (body (obj s' x) = body (obj s x)
                \<or> (\<exists>t r. body (obj s x) = HeadingNode t None
                          \<and> body (obj s' x) = HeadingNode t (Some r)))))"

lemma grows_refl: "grows s s"
  by (simp add: grows_def)

lemma growsD:
  assumes "grows s s'" and "x < next_ref s"
  shows "level (obj s' x) = level (obj s x)" and "parent (obj s' x) = parent (obj s x)"
    and "body (obj s' x) = body (obj s x)
         \<or> (\<exists>t r. body (obj s x) = HeadingNode t None \<and> body (obj s' x) = HeadingNode t (Some r))"
    and "x < next_ref s'"
  using assms unfolding grows_def by (blast, blast, blast, simp)

lemma grows_trans:
  assumes a: "grows s s'" and b: "grows s' s''"
  shows "grows s s''"
  unfolding grows_def
proof (intro conjI allI impI)
  from a b show "next_ref s \<le> next_ref s''" by (simp add: grows_def)
next
  fix x assume x: "x < next_ref s"
  from growsD(4)[OF a x] have x': "x < next_ref s'" .
  from growsD(1)[OF a x] growsD(1)[OF b x'] show "level (obj s'' x) = level (obj s x)" by simp
  from growsD(2)[OF a x] growsD(2)[OF b x'] show "parent (obj s'' x) = parent (obj s x)" by simp
  from growsD(3)[OF a x] growsD(3)[OF b x']
  show "body (obj s'' x) = body (obj s x)
        \<or> (\<exists>t r. body (obj s x) = HeadingNode t None \<and> body (obj s'' x) = HeadingNode t (Some r))"
    by (elim disjE exE conjE) simp_all
qed

lemma grows_is_heading:
  assumes "grows s s'" and "x < next_ref s"
  shows "is_heading (obj s' x) = is_heading (obj s x)"
  using growsD(3)[OF assms] by (auto simp: is_heading_def)

lemma grows_is_text:
  assumes "grows s s'" and "x < next_ref s"
  shows "is_text (obj s' x) = is_text (obj s x)"
  using growsD(3)[OF assms] by (auto simp: is_text_def)


lemma grows_insert_child:
  "c < next_ref s \<Longrightarrow> grows s (snd (insert_child s c cr))"
  by (simp add: grows_def insert_child_simps)

lemma grows_text_root:
  assumes "body (obj s h) = HeadingNode t None"
  shows "grows s (set_textNode h t (next_ref s) (snd (new n s)))"
  using assms by (simp add: grows_def set_textNode_simps new_simps)


text \<open>
  The text trees: the \<open>textNode\<close> of a heading is an allocated object that is
  neither the root nor a heading; a node whose parent is neither the root nor a heading
  is a TextNode; and while the current heading has a text tree, the text cursor is set.
\<close>

definition text_trees :: "store \<Rightarrow> ref \<Rightarrow> bool" where
  "text_trees s rt =
     (\<forall>a < next_ref s. \<forall>t r. body (obj s a) = HeadingNode t (Some r) \<longrightarrow>
        r < next_ref s \<and> r \<noteq> rt \<and> \<not> is_heading (obj s r))"

definition text_lines :: "store \<Rightarrow> ref \<Rightarrow> bool" where
  "text_lines s rt =
     (\<forall>a < next_ref s. \<forall>q. parent (obj s a) = Some q \<longrightarrow> q \<noteq> rt \<longrightarrow>
        \<not> is_heading (obj s q) \<longrightarrow> is_text (obj s a))"

definition cursor_set :: "store \<Rightarrow> ref \<Rightarrow> ref option \<Rightarrow> bool" where
  "cursor_set s h ct = (\<forall>t r. body (obj s h) = HeadingNode t (Some r) \<longrightarrow> ct \<noteq> None)"

definition inv2 :: "Parser \<Rightarrow> bool" where
  "inv2 p =
     (text_trees (heap p) (root p) \<and> text_lines (heap p) (root p)
      \<and> cursor_set (heap p) (currentHeading p) (currentText p))"

lemma inv2_init: "inv2 Parser_init"
  by (simp add: inv2_def Parser_init_def new_def empty_store_def Node_init_def text_trees_def
        text_lines_def cursor_set_def)

lemma text_trees_grows:
  assumes tt: "text_trees s rt" and g: "grows s s'"
    and fresh: "\<And>a t r. a < next_ref s' \<Longrightarrow> body (obj s' a) = HeadingNode t (Some r) \<Longrightarrow>
                 \<not> (a < next_ref s \<and> body (obj s a) = HeadingNode t (Some r)) \<Longrightarrow>
                 r < next_ref s' \<and> r \<noteq> rt \<and> \<not> is_heading (obj s' r)"
  shows "text_trees s' rt"
  unfolding text_trees_def
proof (intro allI impI)
  fix a t r assume a: "a < next_ref s'" and b: "body (obj s' a) = HeadingNode t (Some r)"
  show "r < next_ref s' \<and> r \<noteq> rt \<and> \<not> is_heading (obj s' r)"
  proof (cases "a < next_ref s \<and> body (obj s a) = HeadingNode t (Some r)")
    case True
    with tt have r: "r < next_ref s" "r \<noteq> rt" "\<not> is_heading (obj s r)"
      unfolding text_trees_def by blast+
    from growsD(4)[OF g r(1)] grows_is_heading[OF g r(1)] r show ?thesis by simp
  next
    case False
    from fresh[OF a b False] show ?thesis .
  qed
qed

lemma text_lines_grows:
  assumes tl: "text_lines s rt" and wf: "wf_store s" and g: "grows s s'"
    and fresh: "\<And>a q. next_ref s \<le> a \<Longrightarrow> a < next_ref s' \<Longrightarrow> parent (obj s' a) = Some q \<Longrightarrow>
                 q \<noteq> rt \<Longrightarrow> \<not> is_heading (obj s' q) \<Longrightarrow> is_text (obj s' a)"
  shows "text_lines s' rt"
  unfolding text_lines_def
proof (intro allI impI)
  fix a q assume a: "a < next_ref s'" and pq: "parent (obj s' a) = Some q"
    and qr: "q \<noteq> rt" and nh: "\<not> is_heading (obj s' q)"
  show "is_text (obj s' a)"
  proof (cases "a < next_ref s")
    case True
    from growsD(2)[OF g True] pq have pq': "parent (obj s a) = Some q" by simp
    from wf_parent[OF wf True pq'] True have q: "q < next_ref s" by simp
    from grows_is_heading[OF g q] nh have "\<not> is_heading (obj s q)" by simp
    with tl True pq' qr have "is_text (obj s a)" unfolding text_lines_def by blast
    with grows_is_text[OF g True] show ?thesis by simp
  next
    case False
    then have "next_ref s \<le> a" by simp
    from fresh[OF this a pq qr nh] show ?thesis .
  qed
qed

text \<open>A new child keeps the text trees apart from the heading tree.\<close>

lemma text_inv_insert_child:
  assumes tt: "text_trees s rt" and tl: "text_lines s rt" and wf: "wf_store s"
    and c: "c < next_ref s"
    and n: "cr c = \<lparr>level = l, children = [], parent = Some c, body = b\<rparr>"
    and kind: "(\<exists>t. b = HeadingNode t None) \<and> (c = rt \<or> is_heading (obj s c))
               \<or> (\<exists>spans. b = TextNode spans)"
  shows "text_trees (snd (insert_child s c cr)) rt"
    and "text_lines (snd (insert_child s c cr)) rt"
proof -
  define s' where "s' = snd (insert_child s c cr)"
  have ne: "c \<noteq> next_ref s" using c by simp
  have g: "grows s s'" unfolding s'_def by (rule grows_insert_child[OF c])
  have nx: "next_ref s' = Suc (next_ref s)" by (simp add: s'_def insert_child_simps)
  have new: "obj s' (next_ref s) = \<lparr>level = l, children = [], parent = Some c, body = b\<rparr>"
    using ne by (simp add: s'_def insert_child_simps n)
  have old: "body (obj s' x) = body (obj s x)" if "x \<noteq> next_ref s" for x
    using that ne by (simp add: s'_def insert_child_simps)
  have "text_trees s' rt"
  proof (rule text_trees_grows[OF tt g])
    fix a t r assume a: "a < next_ref s'" and b: "body (obj s' a) = HeadingNode t (Some r)"
      and f: "\<not> (a < next_ref s \<and> body (obj s a) = HeadingNode t (Some r))"
    have "a \<noteq> next_ref s"
    proof
      assume "a = next_ref s"
      with b new have "b = HeadingNode t (Some r)" by simp
      with kind show False by auto
    qed
    with a nx old[of a] b f have False by simp
    then show "r < next_ref s' \<and> r \<noteq> rt \<and> \<not> is_heading (obj s' r)" ..
  qed
  moreover have "text_lines s' rt"
  proof (rule text_lines_grows[OF tl wf g])
    fix a q assume "next_ref s \<le> a" and "a < next_ref s'"
      and pq: "parent (obj s' a) = Some q" and qr: "q \<noteq> rt" and nh: "\<not> is_heading (obj s' q)"
    then have a: "a = next_ref s" using nx by simp
    with pq new have q: "q = c" by simp
    from grows_is_heading[OF g c] nh q have "\<not> is_heading (obj s c)" by simp
    with kind qr q obtain spans where "b = TextNode spans" by auto
    with a new show "is_text (obj s' a)" by (simp add: is_text_def)
  qed
  ultimately show "text_trees (snd (insert_child s c cr)) rt"
    and "text_lines (snd (insert_child s c cr)) rt" by (simp_all add: s'_def)
qed

lemma text_inv_text_root:
  assumes tt: "text_trees s rt" and tl: "text_lines s rt" and wf: "wf_store s"
    and h: "h < next_ref s" and rt: "rt < next_ref s"
    and b: "body (obj s h) = HeadingNode t None"
  shows "text_trees (set_textNode h t (next_ref s) (snd (new (Node_init None 0) s))) rt"
    and "text_lines (set_textNode h t (next_ref s) (snd (new (Node_init None 0) s))) rt"
proof -
  define s' where "s' = set_textNode h t (next_ref s) (snd (new (Node_init None 0) s))"
  have g: "grows s s'" unfolding s'_def by (rule grows_text_root[OF b])
  have nx: "next_ref s' = Suc (next_ref s)" by (simp add: s'_def set_textNode_simps new_simps)
  have ne: "h \<noteq> next_ref s" using h by simp
  have new: "obj s' (next_ref s) = Node_init None 0"
    using ne by (simp add: s'_def set_textNode_simps new_simps)
  have hb: "body (obj s' h) = HeadingNode t (Some (next_ref s))"
    by (simp add: s'_def set_textNode_simps new_simps)
  have old: "body (obj s' x) = body (obj s x)" if "x \<noteq> next_ref s" "x \<noteq> h" for x
    using that by (simp add: s'_def set_textNode_simps new_simps)
  have "text_trees s' rt"
  proof (rule text_trees_grows[OF tt g])
    fix a u r assume a: "a < next_ref s'" and ba: "body (obj s' a) = HeadingNode u (Some r)"
      and f: "\<not> (a < next_ref s \<and> body (obj s a) = HeadingNode u (Some r))"
    have "a \<noteq> next_ref s" using ba new by (auto simp: Node_init_def)
    with a nx have a': "a < next_ref s" by simp
    have "a = h"
    proof (rule ccontr)
      assume "a \<noteq> h"
      with old[of a] \<open>a \<noteq> next_ref s\<close> ba a' f show False by simp
    qed
    with ba hb have "r = next_ref s" by simp
    with nx rt new show "r < next_ref s' \<and> r \<noteq> rt \<and> \<not> is_heading (obj s' r)"
      by (simp add: is_heading_def Node_init_def)
  qed
  moreover have "text_lines s' rt"
  proof (rule text_lines_grows[OF tl wf g])
    fix a q assume "next_ref s \<le> a" and "a < next_ref s'"
      and pq: "parent (obj s' a) = Some q"
    then have "a = next_ref s" using nx by simp
    with pq new have False by (simp add: Node_init_def)
    then show "is_text (obj s' a)" ..
  qed
  ultimately show "text_trees (set_textNode h t (next_ref s) (snd (new (Node_init None 0) s))) rt"
    and "text_lines (set_textNode h t (next_ref s) (snd (new (Node_init None 0) s))) rt"
    by (simp_all add: s'_def)
qed


text \<open>
  Where the walk of insert ends in the heading tree, whose levels go down by one from
  child to parent: at the cursor when the level asked for is above the cursor's, else
  at the ancestor one level above the level asked for.
\<close>

lemma heading_walk:
  assumes wf: "wf_store s" and rt: "root_ok s rt" and hl: "heading_levels s rt"
  shows "cur < next_ref s \<Longrightarrow> cur = rt \<or> is_heading (obj s cur) \<Longrightarrow>
         insert_node s cur lvl cr = Some (Inl AssertionError)
         \<or> (\<exists>c. (cur, c) \<in> (parent_rel s)\<^sup>* \<and> level (obj s c) < lvl
                \<and> level (obj s c) + 1 = min lvl (level (obj s cur) + 1)
                \<and> insert_node s cur lvl cr = Some (Inr (insert_child s c (placed s c lvl cr))))"
proof (induction cur rule: less_induct)
  case (less cur)
  have ne: "cur \<noteq> next_ref s" using less.prems by simp
  consider (child) "lvl - 1 = level (obj s cur)"
    | (up) "lvl - 1 \<noteq> level (obj s cur)" "lvl \<le> level (obj s cur)"
    | (skip) "lvl - 1 \<noteq> level (obj s cur)" "\<not> lvl \<le> level (obj s cur)"
    by blast
  then show ?case
  proof cases
    case child
    then have "insert_node s cur lvl cr = Some (Inr (insert_child s cur (placed s cur lvl cr)))"
      by (subst insert_node.simps) (simp add: placed_def)
    moreover have "level (obj s cur) < lvl"
      and "level (obj s cur) + 1 = min lvl (level (obj s cur) + 1)" using child by simp_all
    ultimately show ?thesis by blast
  next
    case up
    show ?thesis
    proof (cases "parent (obj s cur)")
      case None
      with up have "insert_node s cur lvl cr = Some (Inl AssertionError)"
        by (subst insert_node.simps) simp
      then show ?thesis by simp
    next
      case (Some q)
      with up have eq: "insert_node s cur lvl cr = insert_node s q lvl cr"
        by (subst insert_node.simps) simp
      from wf_parent[OF wf less.prems(1) Some] have q: "q < cur" by simp
      then have q': "q < next_ref s" using less.prems by simp
      from rt Some have "cur \<noteq> rt" by (auto simp: root_ok_def)
      with less.prems(2) have "is_heading (obj s cur)" by simp
      with hl less.prems(1) Some have lq: "level (obj s cur) = level (obj s q) + 1"
        and kq: "q = rt \<or> is_heading (obj s q)"
        unfolding heading_levels_def by auto
      from less.IH[OF q q' kq] have
        "insert_node s q lvl cr = Some (Inl AssertionError)
         \<or> (\<exists>c. (q, c) \<in> (parent_rel s)\<^sup>* \<and> level (obj s c) < lvl
               \<and> level (obj s c) + 1 = min lvl (level (obj s q) + 1)
               \<and> insert_node s q lvl cr = Some (Inr (insert_child s c (placed s c lvl cr))))" .
      then show ?thesis
      proof
        assume "insert_node s q lvl cr = Some (Inl AssertionError)"
        with eq show ?thesis by simp
      next
        assume "\<exists>c. (q, c) \<in> (parent_rel s)\<^sup>* \<and> level (obj s c) < lvl
               \<and> level (obj s c) + 1 = min lvl (level (obj s q) + 1)
               \<and> insert_node s q lvl cr = Some (Inr (insert_child s c (placed s c lvl cr)))"
        then obtain c where c: "(q, c) \<in> (parent_rel s)\<^sup>*" "level (obj s c) < lvl"
          "level (obj s c) + 1 = min lvl (level (obj s q) + 1)"
          "insert_node s q lvl cr = Some (Inr (insert_child s c (placed s c lvl cr)))" by blast
        have "(cur, q) \<in> parent_rel s" using Some by (simp add: parent_rel_def)
        from this c(1) have "(cur, c) \<in> (parent_rel s)\<^sup>*"
          by (rule converse_rtrancl_into_rtrancl)
        moreover from c(3) lq up(2)
        have "level (obj s c) + 1 = min lvl (level (obj s cur) + 1)" by simp
        ultimately show ?thesis using c(2,4) eq by auto
      qed
    qed
  next
    case skip
    then have "insert_node s cur lvl cr = Some (Inr (insert_clamped s cur cr))"
      by (subst insert_node.simps) simp
    also have "insert_clamped s cur cr = insert_child s cur (placed s cur lvl cr)"
      using skip ne by (simp add: insert_clamped_eq placed_def)
    finally have "insert_node s cur lvl cr
                  = Some (Inr (insert_child s cur (placed s cur lvl cr)))" .
    moreover have "level (obj s cur) < lvl"
      and "level (obj s cur) + 1 = min lvl (level (obj s cur) + 1)" using skip by simp_all
    ultimately show ?thesis by blast
  qed
qed

text \<open>What a heading line does to the parser, when it raises nothing.\<close>

lemma parseHeading_shape:
  assumes inv: "inv p" and res: "parseHeading p line = Some (Inr p')"
  shows "\<exists>g1 g2 c cr.
           heading_match line = Some (g1, g2)
           \<and> c < next_ref (heap p) \<and> (c = root p \<or> is_heading (obj (heap p) c))
           \<and> cr c = \<lparr>level = min (int (length g1)) (level (obj (heap p) (currentHeading p)) + 1),
                     children = [], parent = Some c, body = HeadingNode (strip g2) None\<rparr>
           \<and> p' = p\<lparr>heap := snd (insert_child (heap p) c cr),
                     currentHeading := next_ref (heap p), currentText := None\<rparr>"
proof -
  from res obtain g1 g2 where g: "heading_match line = Some (g1, g2)"
    by (cases "heading_match line") (auto simp: parseHeading_def)
  define s where "s = heap p"
  define lvl where "lvl = int (length g1)"
  define b where "b = HeadingNode (strip g2) None"
  define cr where "cr = (\<lambda>par. \<lparr>level = lvl, children = [], parent = Some par, body = b\<rparr>)"
  have cr: "(\<lambda>par. HeadingNode_init (Some par) lvl (strip g2)) = cr"
    by (simp add: cr_def b_def HeadingNode_init_record)
  from inv have wf: "wf_store s" and rt: "root_ok s (root p)" and hl: "heading_levels s (root p)"
    and hc: "heading_cursor_ok s (root p) (currentHeading p)"
    by (simp_all add: inv_def s_def)
  from hc have cur: "currentHeading p < next_ref s"
    and k: "currentHeading p = root p \<or> is_heading (obj s (currentHeading p))"
    by (simp_all add: heading_cursor_ok_def)
  have ph: "parseHeading p line =
              (case insert_node s (currentHeading p) lvl cr of
                 None \<Rightarrow> None
               | Some (Inl e) \<Rightarrow> Some (Inl e)
               | Some (Inr (n, s')) \<Rightarrow>
                   Some (Inr (p\<lparr>heap := s', currentHeading := n, currentText := None\<rparr>)))"
    using g by (simp add: parseHeading_def Let_def lvl_def s_def cr[unfolded lvl_def])
  from heading_walk[OF wf rt hl cur k, of lvl cr]
  show ?thesis
  proof
    assume "insert_node s (currentHeading p) lvl cr = Some (Inl AssertionError)"
    with ph res show ?thesis by simp
  next
    assume "\<exists>c. (currentHeading p, c) \<in> (parent_rel s)\<^sup>* \<and> level (obj s c) < lvl
              \<and> level (obj s c) + 1 = min lvl (level (obj s (currentHeading p)) + 1)
              \<and> insert_node s (currentHeading p) lvl cr
                  = Some (Inr (insert_child s c (placed s c lvl cr)))"
    then obtain c where anc: "(currentHeading p, c) \<in> (parent_rel s)\<^sup>*"
      and lc: "level (obj s c) < lvl"
      and lm: "level (obj s c) + 1 = min lvl (level (obj s (currentHeading p)) + 1)"
      and ins: "insert_node s (currentHeading p) lvl cr
                  = Some (Inr (insert_child s c (placed s c lvl cr)))" by blast
    have "parseHeading p line
          = Some (Inr (p\<lparr>heap := snd (insert_child s c (placed s c lvl cr)),
                          currentHeading := next_ref s, currentText := None\<rparr>))"
      unfolding ph ins by (simp add: case_prod_beta insert_child_simps)
    with res have p': "p' = p\<lparr>heap := snd (insert_child s c (placed s c lvl cr)),
                               currentHeading := next_ref s, currentText := None\<rparr>" by simp
    from heading_ancestor[OF wf rt hl hc anc]
    have c: "c < next_ref s" and kc: "c = root p \<or> is_heading (obj s c)" by simp_all
    have n: "placed s c lvl cr c
             = \<lparr>level = min lvl (level (obj s (currentHeading p)) + 1), children = [],
                 parent = Some c, body = b\<rparr>"
      using placed_node[OF lc, of b] lm by (simp add: cr_def)
    from g c kc n p' show ?thesis
      unfolding s_def lvl_def b_def by blast
  qed
qed

text \<open>
  Lines 356 and 357 make a text-tree root only for a heading that has none: the
  cursor is never unset while the current heading has a text tree.
\<close>

lemma ensure_text_root_shape:
  assumes k: "cursor_set (heap p) (currentHeading p) (currentText p)"
    and e: "ensure_text_root p = Inr (pe, cur)"
  shows "(pe = p \<and> currentText p = Some cur)
       \<or> (\<exists>t. body (obj (heap p) (currentHeading p)) = HeadingNode t None
              \<and> cur = next_ref (heap p)
              \<and> pe = p\<lparr>heap := set_textNode (currentHeading p) t (next_ref (heap p))
                                 (snd (new (Node_init None 0) (heap p))),
                        currentText := Some (next_ref (heap p))\<rparr>)"
proof -
  from e obtain t tn where b: "body (obj (heap p) (currentHeading p)) = HeadingNode t tn"
    by (cases "body (obj (heap p) (currentHeading p))") (simp_all add: ensure_text_root_def)
  show ?thesis
  proof (cases tn)
    case None
    with e b show ?thesis
      by (auto simp: ensure_text_root_def new_def split: option.splits)
  next
    case (Some r)
    with k b obtain c where c: "currentText p = Some c"
      unfolding cursor_set_def by auto
    with e b Some show ?thesis by (simp add: ensure_text_root_def)
  qed
qed


text \<open>What a text line does to the parser, when it raises nothing.\<close>

lemma parseTextLine_shape:
  assumes inv: "inv p" and res: "parseTextLine p line = Some (Inr p')"
  shows "\<exists>pe cur c cr l spans.
           ensure_text_root p = Inr (pe, cur)
           \<and> c < next_ref (heap pe)
           \<and> cr c = \<lparr>level = l, children = [], parent = Some c, body = TextNode spans\<rparr>
           \<and> heap p' = snd (insert_child (heap pe) c cr)
           \<and> currentHeading p' = currentHeading p \<and> root p' = root p
           \<and> currentText p' \<noteq> None"
proof -
  from res obtain pe cur where e: "ensure_text_root p = Inr (pe, cur)"
    by (cases "ensure_text_root p") (auto simp: parseTextLine_def)
  from ensure_text_root_inv[OF inv e]
  have ipe: "inv pe" and ct: "currentText pe = Some cur" and rpe: "root pe = root p"
    and hpe: "currentHeading pe = currentHeading p" by simp_all
  define s where "s = heap pe"
  from ipe have wf: "wf_store s" and tc: "text_cursor_ok s (currentHeading pe) (Some cur)"
    by (simp_all add: inv_def s_def ct[symmetric])
  from tc have cur: "cur < next_ref s" by (simp add: text_cursor_ok_def)
  show ?thesis
  proof (cases "bullet_match line")
    case None
    define cr where "cr = (\<lambda>par. \<lparr>level = 1, children = [], parent = Some par,
                                   body = TextNode (parseText line)\<rparr>)"
    have "parseTextLine p line = Some (Inr (pe\<lparr>heap := snd (insert_child s cur cr)\<rparr>))"
      using e None
      by (simp add: parseTextLine_def insert_child_def new_def cr_def s_def TextNode_init_record)
    with res have p': "p' = pe\<lparr>heap := snd (insert_child s cur cr)\<rparr>" by simp
    have "cr cur = \<lparr>level = 1, children = [], parent = Some cur,
                     body = TextNode (parseText line)\<rparr>" by (simp add: cr_def)
    with e cur p' ct rpe hpe show ?thesis unfolding s_def by auto
  next
    case (Some g)
    obtain g1 g2 where g: "g = (g1, g2)" by (cases g)
    define lvl where "lvl = int (length g1) + 1"
    define cr where "cr = (\<lambda>par. \<lparr>level = lvl, children = [], parent = Some par,
                                   body = TextNode (parseText g2)\<rparr>)"
    have ptl: "parseTextLine p line =
                 (case insert_node s cur lvl cr of
                    None \<Rightarrow> None
                  | Some (Inl e) \<Rightarrow> Some (Inl e)
                  | Some (Inr (n, s')) \<Rightarrow> Some (Inr (pe\<lparr>heap := s', currentText := Some n\<rparr>)))"
      using e Some g
      by (simp add: parseTextLine_def Let_def s_def cr_def lvl_def TextNode_init_record)
    from insert_node_walk[OF wf cur, of lvl cr]
    show ?thesis
    proof
      assume "insert_node s cur lvl cr = Some (Inl AssertionError)"
      with ptl res show ?thesis by simp
    next
      assume "\<exists>c. (cur, c) \<in> (parent_rel s)\<^sup>* \<and> level (obj s c) < lvl
                \<and> insert_node s cur lvl cr = Some (Inr (insert_child s c (placed s c lvl cr)))"
      then obtain c where anc: "(cur, c) \<in> (parent_rel s)\<^sup>*"
        and lc: "level (obj s c) < lvl"
        and ins: "insert_node s cur lvl cr = Some (Inr (insert_child s c (placed s c lvl cr)))"
        by blast
      have n: "placed s c lvl cr c
               = \<lparr>level = level (obj s c) + 1, children = [], parent = Some c,
                   body = TextNode (parseText g2)\<rparr>"
        unfolding cr_def by (rule placed_node[OF lc])
      have "parseTextLine p line
                 = Some (Inr (pe\<lparr>heap := snd (insert_child s c (placed s c lvl cr)),
                                 currentText := Some (next_ref s)\<rparr>))"
        unfolding ptl ins by (simp add: case_prod_beta insert_child_simps)
      with res have p': "p' = pe\<lparr>heap := snd (insert_child s c (placed s c lvl cr)),
                                  currentText := Some (next_ref s)\<rparr>" by simp
      from ancestor_le[OF wf anc cur] cur have c: "c < next_ref s" by simp
      from e c n p' rpe hpe show ?thesis unfolding s_def by auto
    qed
  qed
qed

text \<open>Every line that parses keeps the second invariant and only adds to the store.\<close>

lemma parseHeading_grows:
  assumes inv: "inv p" and inv2: "inv2 p" and res: "parseHeading p line = Some (Inr p')"
  shows "inv2 p' \<and> grows (heap p) (heap p')
         \<and> (\<exists>g1 g2. heading_match line = Some (g1, g2)
               \<and> currentHeading p' = next_ref (heap p)
               \<and> next_ref (heap p') = Suc (next_ref (heap p))
               \<and> body (obj (heap p') (next_ref (heap p))) = HeadingNode (strip g2) None
               \<and> level (obj (heap p') (next_ref (heap p)))
                   = min (int (length g1)) (level (obj (heap p) (currentHeading p)) + 1))"
proof -
  define s where "s = heap p"
  from parseHeading_shape[OF inv res] obtain g1 g2 c cr where
    g: "heading_match line = Some (g1, g2)"
    and c: "c < next_ref s" and kc: "c = root p \<or> is_heading (obj s c)"
    and n: "cr c = \<lparr>level = min (int (length g1)) (level (obj s (currentHeading p)) + 1),
                     children = [], parent = Some c, body = HeadingNode (strip g2) None\<rparr>"
    and p': "p' = p\<lparr>heap := snd (insert_child s c cr),
                     currentHeading := next_ref s, currentText := None\<rparr>"
    unfolding s_def by blast
  define s' where "s' = snd (insert_child s c cr)"
  from inv have wf: "wf_store s" by (simp add: inv_def s_def)
  from inv2 have tt: "text_trees s (root p)" and tl: "text_lines s (root p)"
    by (simp_all add: inv2_def s_def)
  have ne: "c \<noteq> next_ref s" using c by simp
  have new: "obj s' (next_ref s) = cr c" using ne by (simp add: s'_def insert_child_simps)
  have nx: "next_ref s' = Suc (next_ref s)" by (simp add: s'_def insert_child_simps)
  have g1: "text_trees s' (root p)" and g2: "text_lines s' (root p)"
    unfolding s'_def
    using text_inv_insert_child[where cr=cr and c=c, OF tt tl wf c n] kc by simp_all
  have g3: "cursor_set s' (next_ref s) None"
    by (simp add: cursor_set_def new n)
  have "inv2 p'" using g1 g2 g3 by (simp add: inv2_def p' s'_def)
  moreover have "grows (heap p) (heap p')"
    using grows_insert_child[OF c, of cr] by (simp add: p' s_def)
  moreover have "currentHeading p' = next_ref (heap p)" by (simp add: p' s_def)
  moreover have "next_ref (heap p') = Suc (next_ref (heap p))"
    using nx by (simp add: p' s'_def s_def)
  moreover have "body (obj (heap p') (next_ref (heap p))) = HeadingNode (strip g2) None"
    using new n by (simp add: p' s'_def s_def)
  moreover have "level (obj (heap p') (next_ref (heap p)))
                 = min (int (length g1)) (level (obj (heap p) (currentHeading p)) + 1)"
    using new n by (simp add: p' s'_def s_def)
  ultimately show ?thesis using g by blast
qed

lemma parseTextLine_grows:
  assumes inv: "inv p" and inv2: "inv2 p" and res: "parseTextLine p line = Some (Inr p')"
  shows "inv2 p' \<and> grows (heap p) (heap p') \<and> currentHeading p' = currentHeading p
         \<and> (\<forall>a. next_ref (heap p) \<le> a \<longrightarrow> a < next_ref (heap p') \<longrightarrow>
                \<not> is_heading (obj (heap p') a))"
proof -
  define s where "s = heap p"
  define h where "h = currentHeading p"
  from parseTextLine_shape[OF inv res] obtain pe cur c cr l spans where
    e: "ensure_text_root p = Inr (pe, cur)"
    and c: "c < next_ref (heap pe)"
    and n: "cr c = \<lparr>level = l, children = [], parent = Some c, body = TextNode spans\<rparr>"
    and hp: "heap p' = snd (insert_child (heap pe) c cr)"
    and ch: "currentHeading p' = currentHeading p" and rp: "root p' = root p"
    and ct: "currentText p' \<noteq> None" by blast
  define se where "se = heap pe"
  from inv have wf: "wf_store s" and rt: "root_ok s (root p)"
    and hc: "heading_cursor_ok s (root p) h"
    by (simp_all add: inv_def s_def h_def)
  from inv2 have tt: "text_trees s (root p)" and tl: "text_lines s (root p)"
    and k: "cursor_set s h (currentText p)"
    by (simp_all add: inv2_def s_def h_def)
  from hc have hn: "h < next_ref s" by (simp add: heading_cursor_ok_def)
  from rt have rn: "root p < next_ref s" by (simp add: root_ok_def)
  from ensure_text_root_inv[OF inv e] have ipe: "inv pe" by simp
  then have wfe: "wf_store se" by (simp add: inv_def se_def)
  have first: "grows s se \<and> text_trees se (root p) \<and> text_lines se (root p)
               \<and> (\<forall>a. next_ref s \<le> a \<longrightarrow> a < next_ref se \<longrightarrow> \<not> is_heading (obj se a))"
    using ensure_text_root_shape[OF k[unfolded s_def h_def] e]
  proof
    assume "pe = p \<and> currentText p = Some cur"
    then show ?thesis using tt tl by (simp add: se_def s_def grows_refl)
  next
    assume "\<exists>t. body (obj (heap p) (currentHeading p)) = HeadingNode t None
              \<and> cur = next_ref (heap p)
              \<and> pe = p\<lparr>heap := set_textNode (currentHeading p) t (next_ref (heap p))
                                 (snd (new (Node_init None 0) (heap p))),
                        currentText := Some (next_ref (heap p))\<rparr>"
    then obtain t where b: "body (obj s h) = HeadingNode t None"
      and pe: "se = set_textNode h t (next_ref s) (snd (new (Node_init None 0) s))"
      by (auto simp: s_def h_def se_def)
    have "grows s se" unfolding pe by (rule grows_text_root[OF b])
    moreover have "text_trees se (root p)" "text_lines se (root p)"
      unfolding pe using text_inv_text_root[OF tt tl wf hn rn b] by simp_all
    moreover have "\<not> is_heading (obj se a)" if "next_ref s \<le> a" "a < next_ref se" for a
    proof -
      from that have "a = next_ref s" by (simp add: pe set_textNode_simps new_simps)
      with hn show ?thesis
        by (simp add: pe set_textNode_simps new_simps is_heading_def Node_init_def)
    qed
    ultimately show ?thesis by blast
  qed
  then have gse: "grows s se" and tte: "text_trees se (root p)" and tle: "text_lines se (root p)"
    and nhe: "\<And>a. next_ref s \<le> a \<Longrightarrow> a < next_ref se \<Longrightarrow> \<not> is_heading (obj se a)"
    by blast+
  define s' where "s' = snd (insert_child se c cr)"
  have c': "c < next_ref se" using c by (simp add: se_def)
  have ne: "c \<noteq> next_ref se" using c' by simp
  have gs': "grows se s'" unfolding s'_def by (rule grows_insert_child[OF c'])
  have nx: "next_ref s' = Suc (next_ref se)" by (simp add: s'_def insert_child_simps)
  have new: "obj s' (next_ref se) = cr c" using ne by (simp add: s'_def insert_child_simps)
  have g1: "text_trees s' (root p)" and g2: "text_lines s' (root p)"
    unfolding s'_def using text_inv_insert_child[where cr=cr and c=c, OF tte tle wfe c' n] by simp_all
  have g3: "cursor_set s' h (currentText p')"
    using ct by (simp add: cursor_set_def)
  have hs: "heap p' = s'" using hp by (simp add: s'_def se_def)
  have "inv2 p'" using g1 g2 g3 by (simp add: inv2_def hs rp ch h_def)
  moreover have "grows (heap p) (heap p')"
    using grows_trans[OF gse gs'] by (simp add: hs s_def)
  moreover have "\<not> is_heading (obj (heap p') a)"
    if a: "next_ref (heap p) \<le> a" "a < next_ref (heap p')" for a
  proof (cases "a < next_ref se")
    case True
    from nhe[OF a(1)[folded s_def] True] grows_is_heading[OF gs' True]
    show ?thesis by (simp add: hs)
  next
    case False
    with a(2) nx have "a = next_ref se" by (simp add: hs)
    with new n show ?thesis by (simp add: hs is_heading_def)
  qed
  ultimately show ?thesis using ch by blast
qed

lemma parseLines_grows:
  assumes "inv p" and "inv2 p" and "parseLines p ls = Some (Inr p')"
  shows "inv p' \<and> inv2 p' \<and> grows (heap p) (heap p') \<and> root p' = root p"
  using assms
proof (induction ls arbitrary: p)
  case Nil
  then show ?case by (simp add: grows_refl)
next
  case (Cons l ls)
  from Cons.prems(3) obtain p1 where p1: "parseLine p l = Some (Inr p1)"
    and rest: "parseLines p1 ls = Some (Inr p')"
    by (auto split: option.splits sum.splits)
  from parseLine_step[OF Cons.prems(1), of l] p1 have i1: "inv p1" and r1: "root p1 = root p"
    by auto
  have "inv2 p1 \<and> grows (heap p) (heap p1)"
  proof (cases "startswith l ''=''")
    case True
    with p1 have "parseHeading p l = Some (Inr p1)" by (simp add: parseLine_def)
    from parseHeading_grows[OF Cons.prems(1,2) this] show ?thesis by blast
  next
    case False
    with p1 have "parseTextLine p l = Some (Inr p1)" by (simp add: parseLine_def)
    from parseTextLine_grows[OF Cons.prems(1,2) this] show ?thesis by blast
  qed
  then have i2: "inv2 p1" and g1: "grows (heap p) (heap p1)" by simp_all
  from Cons.IH[OF i1 i2 rest] have "inv p'" "inv2 p'" "grows (heap p1) (heap p')"
    "root p' = root p1" by simp_all
  with grows_trans[OF g1] r1 show ?case by simp
qed

section \<open>Termination of parsing\<close>

lemma parseString_returns: "\<exists>r. parseString Parser_init wtex = Some r"
  using parseLines_inv[OF inv_init, of "split_lines wtex"]
  by (auto simp: parseString_def)

lemma scan_advances:
  assumes "t \<noteq> []" and "re_match_regex t = Some m"
  shows "(group0 m = [] \<and> (\<exists>res. scan t acc = LoopEnd res))
       \<or> (length (drop (length (group0 m)) t) < length t
          \<and> (\<exists>acc'. scan t acc = scan (drop (length (group0 m)) t) acc'))"
proof (cases "group0 m = []")
  case True
  with scan_step[OF assms, of acc] show ?thesis by simp
next
  case False
  with assms(1) have "length (drop (length (group0 m)) t) < length t" by simp
  with False scan_step[OF assms, of acc] show ?thesis by auto
qed

lemma parseText_fixed_point:
  assumes "scan t [] = LoopEnd [sp]" and "s_text sp = t"
  shows "parseText t = [sp]"
  using assms by (subst parseText.simps) simp

lemma reparse_shorter:
  assumes "scan t [] = LoopEnd res" and "\<not> (length res = 1 \<and> s_text (res ! 0) = t)"
    and "r \<in> set res"
  shows "length (s_text r) < length t"
proof -
  from scan_bound[OF assms(1)] assms(3)
  have "length (s_text r) < length t \<or> (s_text r = t \<and> res = [r])" by auto
  with assms(2) show ?thesis by auto
qed

text \<open>
  C8. For every document, parseString terminates: it returns a value, an error or a
  parser. In the scan loop of parseText a match on a non-empty text either is empty,
  and the loop ends there, or leaves a strictly shorter text to scan. The re-parse
  stops where the scan yields one span that is the input itself; otherwise every span
  it re-parses is strictly shorter than the input. The upward walk of insert returns
  from every allocated node of a well-formed store, where a parent is older than its
  child.
\<close>

theorem parsing_terminates:
  "(\<exists>r. parseString Parser_init wtex = Some r)
   \<and> (t \<noteq> [] \<and> re_match_regex t = Some m \<longrightarrow>
        (group0 m = [] \<and> (\<exists>res. scan t acc = LoopEnd res))
        \<or> (length (drop (length (group0 m)) t) < length t
           \<and> (\<exists>acc'. scan t acc = scan (drop (length (group0 m)) t) acc')))
   \<and> (scan t [] = LoopEnd [sp] \<and> s_text sp = t \<longrightarrow> parseText t = [sp])
   \<and> (scan t [] = LoopEnd res \<and> \<not> (length res = 1 \<and> s_text (res ! 0) = t) \<and> r \<in> set res
        \<longrightarrow> length (s_text r) < length t)
   \<and> (wf_store s \<and> cur < next_ref s \<longrightarrow> (\<exists>x. insert_node s cur lvl cr = Some x))"
  using parseString_returns[of wtex] scan_advances[of t m acc] parseText_fixed_point[of t sp]
    reparse_shorter[of t res r] insert_node_returns[of s cur lvl cr]
  by blast

theorem parsing_terminates_witness:
  "(\<exists>r. parseString Parser_init (''=a'' @ [newline] @ ''* __b'') = Some r)
   \<and> (\<exists>acc'. scan ''a__b'' [] = scan ''__b'' acc')
   \<and> parseText ''plain'' = [Text_init ''plain'']
   \<and> length (s_text (Text_init ''b'')) < length ''__b__''
   \<and> (\<exists>x. insert_node (heap Parser_init) 0 1 (\<lambda>p. HeadingNode_init (Some p) 1 ''a'') = Some x)"
proof -
  let ?m = "(no_groups ''a'')\<lparr>g_otherwise := Some ''a''\<rparr>"
  have m: "re_match_regex ''a__b'' = Some ?m" by code_simp
  have g: "group0 ?m = ''a''" by (simp add: no_groups_def)
  have fp: "scan ''plain'' [] = LoopEnd [Text_init ''plain'']" by code_simp
  have sb: "scan ''__b__'' [] = LoopEnd [(Text_init ''b'')\<lparr>bold := True\<rparr>]" by code_simp
  have wf: "wf_store (heap Parser_init)" using inv_init by (simp add: inv_def)
  have nx: "0 < next_ref (heap Parser_init)" by (simp add: Parser_init_def new_def empty_store_def)
  note T = parsing_terminates[where wtex="''=a'' @ [newline] @ ''* __b''"
      and s="heap Parser_init" and cur=0 and lvl=1
      and cr="\<lambda>p. HeadingNode_init (Some p) 1 ''a''"]
  have a: "\<exists>r. parseString Parser_init (''=a'' @ [newline] @ ''* __b'') = Some r"
    using T by blast
  have b: "\<exists>acc'. scan ''a__b'' [] = scan ''__b'' acc'"
    using T[where t="''a__b''" and m="?m" and acc="[]"] m g by simp
  have c: "parseText ''plain'' = [Text_init ''plain'']"
    using T[where t="''plain''" and sp="Text_init ''plain''"] fp by (simp add: Text_init_def)
  have d: "length (s_text (Text_init ''b'')) < length ''__b__''"
    using T[where t="''__b__''" and res="[(Text_init ''b'')\<lparr>bold := True\<rparr>]"
              and r="(Text_init ''b'')\<lparr>bold := True\<rparr>"] sb
    by (simp add: Text_init_def)
  have e: "\<exists>x. insert_node (heap Parser_init) 0 1 (\<lambda>p. HeadingNode_init (Some p) 1 ''a'') = Some x"
    using T wf nx by blast
  from a b c d e show ?thesis by blast
qed

section \<open>Levels of headings\<close>

lemma heading_match_count:
  assumes "heading_match line = Some (g1, g2)"
  shows "g1 = takeWhile (\<lambda>c. c = CHR ''='') line"
  using assms by (auto simp: heading_match_def Let_def split: if_splits)

lemma parsed_inv:
  assumes "parseLines Parser_init xs = Some (Inr p)"
  shows "inv p" and "inv2 p" and "root p = root Parser_init"
  using parseLines_grows[OF inv_init inv2_init assms] by simp_all

text \<open>
  Every HeadingNode of the store was made by one heading line of the document, and has
  the smaller of two levels: the number of \<open>=\<close> signs of that line, and one more than
  the level of the heading that was current when the line was parsed.
\<close>

lemma headings_declared:
  "parseLines Parser_init xs = Some (Inr p) \<Longrightarrow> a < next_ref (heap p) \<Longrightarrow>
   is_heading (obj (heap p) a) \<Longrightarrow>
   \<exists>ls line rest p0 g2 tn.
      xs = ls @ line # rest \<and> startswith line ''=''
      \<and> parseLines Parser_init ls = Some (Inr p0) \<and> a = next_ref (heap p0)
      \<and> heading_match line = Some (takeWhile (\<lambda>c. c = CHR ''='') line, g2)
      \<and> body (obj (heap p) a) = HeadingNode (strip g2) tn
      \<and> level (obj (heap p) a)
          = min (int (length (takeWhile (\<lambda>c. c = CHR ''='') line)))
                (level (obj (heap p0) (currentHeading p0)) + 1)"
proof (induction xs arbitrary: p rule: rev_induct)
  case Nil
  then have "p = Parser_init" by simp
  with Nil.prems(2,3) show ?case
    by (simp add: Parser_init_def new_def empty_store_def Node_init_def is_heading_def)
next
  case (snoc l xs)
  from snoc.prems(1) obtain p1 where p1: "parseLines Parser_init xs = Some (Inr p1)"
    and step: "parseLine p1 l = Some (Inr p)"
    by (auto simp: parseLines_append split: option.splits sum.splits)
  note i1 = parsed_inv(1)[OF p1] and i2 = parsed_inv(2)[OF p1]
  show ?case
  proof (cases "startswith l ''=''")
    case True
    with step have ph: "parseHeading p1 l = Some (Inr p)" by (simp add: parseLine_def)
    from parseHeading_grows[OF i1 i2 ph] obtain g1 g2 where
      g: "grows (heap p1) (heap p)" and hm: "heading_match l = Some (g1, g2)"
      and nx: "next_ref (heap p) = Suc (next_ref (heap p1))"
      and b: "body (obj (heap p) (next_ref (heap p1))) = HeadingNode (strip g2) None"
      and lv: "level (obj (heap p) (next_ref (heap p1)))
               = min (int (length g1)) (level (obj (heap p1) (currentHeading p1)) + 1)"
      by blast
    show ?thesis
    proof (cases "a < next_ref (heap p1)")
      case old: True
      from grows_is_heading[OF g old] snoc.prems(3) have "is_heading (obj (heap p1) a)" by simp
      from snoc.IH[OF p1 old this] obtain ls line rest p0 g2' tn where
        d: "xs = ls @ line # rest" "startswith line ''=''"
           "parseLines Parser_init ls = Some (Inr p0)" "a = next_ref (heap p0)"
           "heading_match line = Some (takeWhile (\<lambda>c. c = CHR ''='') line, g2')"
        and bo: "body (obj (heap p1) a) = HeadingNode (strip g2') tn"
        and lo: "level (obj (heap p1) a)
             = min (int (length (takeWhile (\<lambda>c. c = CHR ''='') line)))
                   (level (obj (heap p0) (currentHeading p0)) + 1)"
        by blast
      from growsD(3)[OF g old] bo obtain tn' where
        "body (obj (heap p) a) = HeadingNode (strip g2') tn'" by auto
      moreover from growsD(1)[OF g old] lo have "level (obj (heap p) a)
             = min (int (length (takeWhile (\<lambda>c. c = CHR ''='') line)))
                   (level (obj (heap p0) (currentHeading p0)) + 1)" by simp
      moreover from d(1) have "xs @ [l] = ls @ line # (rest @ [l])" by simp
      ultimately show ?thesis using d(2-5) by blast
    next
      case False
      with snoc.prems(2) nx have a: "a = next_ref (heap p1)" by simp
      from heading_match_count[OF hm] have g1: "g1 = takeWhile (\<lambda>c. c = CHR ''='') l" .
      have "xs @ [l] = xs @ l # []" by simp
      with True p1 a hm b lv show ?thesis unfolding g1 by blast
    qed
  next
    case False
    with step have pt: "parseTextLine p1 l = Some (Inr p)" by (simp add: parseLine_def)
    from parseTextLine_grows[OF i1 i2 pt] have g: "grows (heap p1) (heap p)"
      and nh: "\<And>x. next_ref (heap p1) \<le> x \<Longrightarrow> x < next_ref (heap p) \<Longrightarrow>
                 \<not> is_heading (obj (heap p) x)" by blast+
    have old: "a < next_ref (heap p1)"
    proof (rule ccontr)
      assume "\<not> a < next_ref (heap p1)"
      then have "next_ref (heap p1) \<le> a" by simp
      from nh[OF this snoc.prems(2)] snoc.prems(3) show False by simp
    qed
    from grows_is_heading[OF g old] snoc.prems(3) have "is_heading (obj (heap p1) a)" by simp
    from snoc.IH[OF p1 old this] obtain ls line rest p0 g2' tn where
      d: "xs = ls @ line # rest" "startswith line ''=''"
         "parseLines Parser_init ls = Some (Inr p0)" "a = next_ref (heap p0)"
         "heading_match line = Some (takeWhile (\<lambda>c. c = CHR ''='') line, g2')"
      and bo: "body (obj (heap p1) a) = HeadingNode (strip g2') tn"
      and lo: "level (obj (heap p1) a)
           = min (int (length (takeWhile (\<lambda>c. c = CHR ''='') line)))
                 (level (obj (heap p0) (currentHeading p0)) + 1)"
      by blast
    from growsD(3)[OF g old] bo obtain tn' where
      "body (obj (heap p) a) = HeadingNode (strip g2') tn'" by auto
    moreover from growsD(1)[OF g old] lo have "level (obj (heap p) a)
           = min (int (length (takeWhile (\<lambda>c. c = CHR ''='') line)))
                 (level (obj (heap p0) (currentHeading p0)) + 1)" by simp
    moreover from d(1) have "xs @ [l] = ls @ line # (rest @ [l])" by simp
    ultimately show ?thesis using d(2-5) by blast
  qed
qed

text \<open>
  And every heading line of a document that parses makes such a HeadingNode.
\<close>

lemma heading_line_declares:
  assumes parsed: "parseLines Parser_init (ls @ line # rest) = Some (Inr p)"
    and hl: "startswith line ''=''"
  shows "\<exists>p0 g2 tn.
           parseLines Parser_init ls = Some (Inr p0)
           \<and> next_ref (heap p0) < next_ref (heap p)
           \<and> heading_match line = Some (takeWhile (\<lambda>c. c = CHR ''='') line, g2)
           \<and> body (obj (heap p) (next_ref (heap p0))) = HeadingNode (strip g2) tn
           \<and> level (obj (heap p) (next_ref (heap p0)))
               = min (int (length (takeWhile (\<lambda>c. c = CHR ''='') line)))
                     (level (obj (heap p0) (currentHeading p0)) + 1)"
proof -
  from parsed obtain p0 p1 where p0: "parseLines Parser_init ls = Some (Inr p0)"
    and step: "parseLine p0 line = Some (Inr p1)"
    and rest: "parseLines p1 rest = Some (Inr p)"
    by (auto simp: parseLines_append split: option.splits sum.splits)
  note i0 = parsed_inv(1)[OF p0] and j0 = parsed_inv(2)[OF p0]
  from step hl have ph: "parseHeading p0 line = Some (Inr p1)" by (simp add: parseLine_def)
  from parseHeading_grows[OF i0 j0 ph] obtain g1 g2 where
    j1: "inv2 p1" and hm: "heading_match line = Some (g1, g2)"
    and nx: "next_ref (heap p1) = Suc (next_ref (heap p0))"
    and b: "body (obj (heap p1) (next_ref (heap p0))) = HeadingNode (strip g2) None"
    and lv: "level (obj (heap p1) (next_ref (heap p0)))
             = min (int (length g1)) (level (obj (heap p0) (currentHeading p0)) + 1)"
    by blast
  from parseLine_step[OF i0, of line] step have i1: "inv p1" by auto
  from parseLines_grows[OF i1 j1 rest] have g: "grows (heap p1) (heap p)" by simp
  have n: "next_ref (heap p0) < next_ref (heap p1)" using nx by simp
  from growsD(3)[OF g n] b obtain tn where
    "body (obj (heap p) (next_ref (heap p0))) = HeadingNode (strip g2) tn" by auto
  moreover from growsD(1)[OF g n] lv have "level (obj (heap p) (next_ref (heap p0)))
             = min (int (length g1)) (level (obj (heap p0) (currentHeading p0)) + 1)" by simp
  moreover note growsD(4)[OF g n] p0 hm
  ultimately show ?thesis unfolding heading_match_count[OF hm] by blast
qed

text \<open>
  C5, as amended. In every heading tree that parseString builds, the root has level 0
  and every HeadingNode has a parent, which is the root or a HeadingNode, is among the
  children of that parent, and has the level of the parent plus one; so levels decrease
  by one along every parent chain down to the root. Every HeadingNode was declared by
  one heading line of the document, and every heading line declared one: its title is
  the stripped second group of the heading pattern on that line, and its stored level
  is the smaller of the number of leading \<open>=\<close> characters of the line and the level
  of the heading that was current when the line was parsed, plus one. So the stored
  level is the number of \<open>=\<close> characters unless the line skipped a level.
\<close>

theorem heading_levels_invariant:
  assumes "parseString Parser_init wtex = Some (Inr p)"
  shows "level (obj (heap p) (root p)) = 0
       \<and> (\<forall>a < next_ref (heap p). is_heading (obj (heap p) a) \<longrightarrow>
            (\<exists>q. parent (obj (heap p) a) = Some q \<and> a \<in> set (children (obj (heap p) q))
                 \<and> level (obj (heap p) a) = level (obj (heap p) q) + 1
                 \<and> (q = root p \<or> is_heading (obj (heap p) q))))
       \<and> (\<forall>q < next_ref (heap p). \<forall>c \<in> set (children (obj (heap p) q)).
            is_heading (obj (heap p) c) \<longrightarrow> level (obj (heap p) c) = level (obj (heap p) q) + 1)
       \<and> (\<forall>a < next_ref (heap p). is_heading (obj (heap p) a) \<longrightarrow>
            (\<exists>ls line rest p0 g2 tn.
               split_lines wtex = ls @ line # rest \<and> startswith line ''=''
               \<and> parseLines Parser_init ls = Some (Inr p0) \<and> a = next_ref (heap p0)
               \<and> heading_match line = Some (takeWhile (\<lambda>c. c = CHR ''='') line, g2)
               \<and> body (obj (heap p) a) = HeadingNode (strip g2) tn
               \<and> level (obj (heap p) a)
                   = min (int (length (takeWhile (\<lambda>c. c = CHR ''='') line)))
                         (level (obj (heap p0) (currentHeading p0)) + 1)))
       \<and> (\<forall>ls line rest. split_lines wtex = ls @ line # rest \<and> startswith line ''='' \<longrightarrow>
            (\<exists>p0 g2 tn.
               parseLines Parser_init ls = Some (Inr p0)
               \<and> next_ref (heap p0) < next_ref (heap p)
               \<and> heading_match line = Some (takeWhile (\<lambda>c. c = CHR ''='') line, g2)
               \<and> body (obj (heap p) (next_ref (heap p0))) = HeadingNode (strip g2) tn
               \<and> level (obj (heap p) (next_ref (heap p0)))
                   = min (int (length (takeWhile (\<lambda>c. c = CHR ''='') line)))
                         (level (obj (heap p0) (currentHeading p0)) + 1)))"
proof -
  from assms have pl: "parseLines Parser_init (split_lines wtex) = Some (Inr p)"
    by (simp add: parseString_def)
  note inv = parsed_inv(1)[OF pl]
  define s where "s = heap p"
  from inv have wf: "wf_store s" and rt: "root_ok s (root p)" and hl: "heading_levels s (root p)"
    by (simp_all add: inv_def s_def)
  have a: "level (obj s (root p)) = 0" using rt by (simp add: root_ok_def)
  have b: "\<exists>q. parent (obj s a) = Some q \<and> a \<in> set (children (obj s q))
                 \<and> level (obj s a) = level (obj s q) + 1
                 \<and> (q = root p \<or> is_heading (obj s q))"
    if "a < next_ref s" and "is_heading (obj s a)" for a
  proof -
    from hl that obtain q where q: "parent (obj s a) = Some q"
      "level (obj s a) = level (obj s q) + 1" "q = root p \<or> is_heading (obj s q)"
      unfolding heading_levels_def by blast
    from wf_parent[OF wf that(1) q(1)] q show ?thesis by simp
  qed
  have c: "level (obj s c) = level (obj s q) + 1"
    if "q < next_ref s" and "c \<in> set (children (obj s q))" and "is_heading (obj s c)" for q c
  proof -
    from wf_child[OF wf that(1,2)] have c: "c < next_ref s" and pc: "parent (obj s c) = Some q"
      by simp_all
    from b[OF c that(3)] pc show ?thesis by auto
  qed
  have d: "\<exists>ls line rest p0 g2 tn.
               split_lines wtex = ls @ line # rest \<and> startswith line ''=''
               \<and> parseLines Parser_init ls = Some (Inr p0) \<and> a = next_ref (heap p0)
               \<and> heading_match line = Some (takeWhile (\<lambda>c. c = CHR ''='') line, g2)
               \<and> body (obj s a) = HeadingNode (strip g2) tn
               \<and> level (obj s a)
                   = min (int (length (takeWhile (\<lambda>c. c = CHR ''='') line)))
                         (level (obj (heap p0) (currentHeading p0)) + 1)"
    if "a < next_ref s" and "is_heading (obj s a)" for a
    using headings_declared[OF pl that[unfolded s_def]] unfolding s_def .
  have e: "\<exists>p0 g2 tn.
               parseLines Parser_init ls = Some (Inr p0)
               \<and> next_ref (heap p0) < next_ref s
               \<and> heading_match line = Some (takeWhile (\<lambda>c. c = CHR ''='') line, g2)
               \<and> body (obj s (next_ref (heap p0))) = HeadingNode (strip g2) tn
               \<and> level (obj s (next_ref (heap p0)))
                   = min (int (length (takeWhile (\<lambda>c. c = CHR ''='') line)))
                         (level (obj (heap p0) (currentHeading p0)) + 1)"
    if "split_lines wtex = ls @ line # rest \<and> startswith line ''=''" for ls line rest
    using heading_line_declares[of ls line rest p] pl that unfolding s_def by simp
  from a b c d e show ?thesis unfolding s_def by blast
qed

theorem heading_levels_invariant_witness:
  "(case parseString Parser_init (''=a'' @ [newline] @ ''===b'') of
      Some (Inr p) \<Rightarrow>
        is_heading (obj (heap p) 2) \<and> 2 \<in> set (children (obj (heap p) 1))
        \<and> level (obj (heap p) 2) = level (obj (heap p) 1) + 1
        \<and> split_lines (''=a'' @ [newline] @ ''===b'') = [''=a''] @ ''===b'' # []
        \<and> startswith ''===b'' ''=''
        \<and> level (obj (heap p) 2) = min 3 (1 + 1)
    | _ \<Rightarrow> False)"
proof -
  let ?doc = "''=a'' @ [newline] @ ''===b''"
  have ev: "(case parseString Parser_init ?doc of
      Some (Inr p) \<Rightarrow>
        is_heading (obj (heap p) 2) \<and> 2 \<in> set (children (obj (heap p) 1))
        \<and> 1 < next_ref (heap p)
    | _ \<Rightarrow> False)"
    by code_simp
  have ev0: "(case parseLines Parser_init [''=a''] of
      Some (Inr p0) \<Rightarrow>
        next_ref (heap p0) = 2 \<and> level (obj (heap p0) (currentHeading p0)) = 1
    | _ \<Rightarrow> False)"
    by code_simp
  have sl: "split_lines ?doc = [''=a''] @ ''===b'' # []" by code_simp
  have sw: "startswith ''===b'' ''=''" by simp
  have cnt: "int (length (takeWhile (\<lambda>c. c = CHR ''='') ''===b'')) = 3" by simp
  from ev obtain p where p: "parseString Parser_init ?doc = Some (Inr p)"
    by (auto split: option.splits sum.splits)
  with ev have h: "is_heading (obj (heap p) 2)" and c: "2 \<in> set (children (obj (heap p) 1))"
    and n: "1 < next_ref (heap p)" by simp_all
  note T = heading_levels_invariant[OF p]
  from T n c h have l1: "level (obj (heap p) 2) = level (obj (heap p) 1) + 1" by blast
  from T sl sw obtain p0 where p0: "parseLines Parser_init [''=a''] = Some (Inr p0)"
    and lv: "level (obj (heap p) (next_ref (heap p0)))
             = min (int (length (takeWhile (\<lambda>c. c = CHR ''='') ''===b'')))
                   (level (obj (heap p0) (currentHeading p0)) + 1)"
    by blast
  from ev0 p0 have "next_ref (heap p0) = 2" "level (obj (heap p0) (currentHeading p0)) = 1"
    by simp_all
  with lv cnt have l2: "level (obj (heap p) 2) = min 3 (1 + 1)" by simp
  from p h c l1 sl sw l2 show ?thesis by simp
qed

text \<open>
  C5 as stated fails: the heading declared by \<open>===b\<close> under \<open>=a\<close> has the stored
  level 2, not the number of its \<open>=\<close> characters.
\<close>

theorem heading_level_counterexample:
  "(case parseString Parser_init (''=a'' @ [newline] @ ''===b'') of
      Some (Inr p) \<Rightarrow>
        body (obj (heap p) 2) = HeadingNode ''b'' None
        \<and> level (obj (heap p) 2) = 2
        \<and> level (obj (heap p) 2) \<noteq> int (length (takeWhile (\<lambda>c. c = CHR ''='') ''===b''))
    | _ \<Rightarrow> False)"
  by code_simp

section \<open>Plain text lines\<close>

text \<open>
  C3, as amended. When the current heading has a text tree and the text cursor is set
  (to an allocated node), a line that is not a bullet line is stored as a new TextNode
  of level 1 whose parent is the node under the cursor and which is the last child of
  that node; the cursor and the current heading are unchanged, and so is every other
  object.
\<close>

theorem plain_line_under_cursor:
  assumes heading: "body (obj (heap p) (currentHeading p)) = HeadingNode t (Some r)"
    and cursor: "currentText p = Some c" and alloc: "c < next_ref (heap p)"
    and plain: "bullet_match line = None"
  shows "\<exists>p'. parseTextLine p line = Some (Inr p')
           \<and> currentText p' = Some c \<and> currentHeading p' = currentHeading p
           \<and> next_ref (heap p') = Suc (next_ref (heap p))
           \<and> obj (heap p') (next_ref (heap p)) = TextNode_init (Some c) 1 (parseText line)
           \<and> obj (heap p') c
               = (obj (heap p) c)\<lparr>children := children (obj (heap p) c) @ [next_ref (heap p)]\<rparr>
           \<and> (\<forall>x. x \<noteq> c \<longrightarrow> x \<noteq> next_ref (heap p) \<longrightarrow> obj (heap p') x = obj (heap p) x)"
proof -
  have e: "ensure_text_root p = Inr (p, c)"
    using heading cursor by (simp add: ensure_text_root_def)
  have ne: "c \<noteq> next_ref (heap p)" using alloc by simp
  show ?thesis
    using plain ne cursor
    by (simp add: parseTextLine_def e new_def append_child_def)
qed

theorem plain_line_under_cursor_witness:
  "(case parseString Parser_init (''=H'' @ [newline] @ ''* a'') of
      Some (Inr p) \<Rightarrow>
        body (obj (heap p) (currentHeading p)) = HeadingNode ''H'' (Some 2)
        \<and> currentText p = Some 3 \<and> 3 < next_ref (heap p) \<and> bullet_match ''plain'' = None
        \<and> (\<exists>p'. parseTextLine p ''plain'' = Some (Inr p')
              \<and> currentText p' = Some 3
              \<and> obj (heap p') 4 = TextNode_init (Some 3) 1 (parseText ''plain'')
              \<and> children (obj (heap p') 3) = [4]
              \<and> obj (heap p') 2 = obj (heap p) 2)
    | _ \<Rightarrow> False)"
proof -
  have ev: "(case parseString Parser_init (''=H'' @ [newline] @ ''* a'') of
      Some (Inr p) \<Rightarrow>
        body (obj (heap p) (currentHeading p)) = HeadingNode ''H'' (Some 2)
        \<and> currentText p = Some 3 \<and> 3 < next_ref (heap p) \<and> bullet_match ''plain'' = None
        \<and> next_ref (heap p) = 4 \<and> children (obj (heap p) 3) = []
    | _ \<Rightarrow> False)"
    by code_simp
  then obtain p where p: "parseString Parser_init (''=H'' @ [newline] @ ''* a'') = Some (Inr p)"
    by (auto split: option.splits sum.splits)
  with ev have h: "body (obj (heap p) (currentHeading p)) = HeadingNode ''H'' (Some 2)"
    and c: "currentText p = Some 3" and a: "3 < next_ref (heap p)"
    and b: "bullet_match ''plain'' = None" and n: "next_ref (heap p) = 4"
    and k: "children (obj (heap p) 3) = []"
    by simp_all
  from plain_line_under_cursor[OF h c a b] obtain p' where
    "parseTextLine p ''plain'' = Some (Inr p')" "currentText p' = Some 3"
    "obj (heap p') 4 = TextNode_init (Some 3) 1 (parseText ''plain'')"
    "obj (heap p') 3 = (obj (heap p) 3)\<lparr>children := children (obj (heap p) 3) @ [4]\<rparr>"
    "obj (heap p') 2 = obj (heap p) 2"
    unfolding n by auto
  then have "\<exists>p'. parseTextLine p ''plain'' = Some (Inr p')
              \<and> currentText p' = Some 3
              \<and> obj (heap p') 4 = TextNode_init (Some 3) 1 (parseText ''plain'')
              \<and> children (obj (heap p') 3) = [4]
              \<and> obj (heap p') 2 = obj (heap p) 2"
    using k by auto
  with p h c a b show ?thesis by simp
qed

text \<open>
  C3 as stated fails: after a bullet line the cursor is the bullet's node, and the
  plain line that follows becomes a child of that node (object 3), not of the text-tree
  root (object 2) of the heading.
\<close>

theorem plain_line_counterexample:
  "(case parseString Parser_init (''=H'' @ [newline] @ ''* a'' @ [newline] @ ''plain'') of
      Some (Inr p) \<Rightarrow>
        currentHeading p = 1 \<and> body (obj (heap p) 1) = HeadingNode ''H'' (Some 2)
        \<and> children (obj (heap p) 2) = [3]
        \<and> currentText p = Some 3
        \<and> children (obj (heap p) 3) = [4]
        \<and> obj (heap p) 4 = TextNode_init (Some 3) 1 [Text_init ''plain'']
    | _ \<Rightarrow> False)"
  by code_simp

text \<open>
  When the heading has no text tree yet, or the cursor is unset, the line goes under a
  new text-tree root, which becomes the cursor.
\<close>

lemma plain_line_fresh_root:
  assumes heading: "body (obj (heap p) (currentHeading p)) = HeadingNode t tn"
    and unset: "tn = None \<or> currentText p = None"
    and alloc: "currentHeading p < next_ref (heap p)"
    and plain: "bullet_match line = None"
  shows "\<exists>p'. parseTextLine p line = Some (Inr p')
           \<and> currentText p' = Some (next_ref (heap p))
           \<and> body (obj (heap p') (currentHeading p)) = HeadingNode t (Some (next_ref (heap p)))
           \<and> obj (heap p') (next_ref (heap p))
               = (Node_init None 0)\<lparr>children := [Suc (next_ref (heap p))]\<rparr>
           \<and> obj (heap p') (Suc (next_ref (heap p)))
               = TextNode_init (Some (next_ref (heap p))) 1 (parseText line)"
proof -
  have e: "ensure_text_root p
           = Inr (p\<lparr>heap := set_textNode (currentHeading p) t (next_ref (heap p))
                              (snd (new (Node_init None 0) (heap p))),
                     currentText := Some (next_ref (heap p))\<rparr>, next_ref (heap p))"
    using heading unset
    by (auto simp: ensure_text_root_def new_def split: option.splits)
  have ne: "currentHeading p \<noteq> next_ref (heap p)"
    and ne': "currentHeading p \<noteq> Suc (next_ref (heap p))" using alloc by simp_all
  show ?thesis
    using plain ne ne'
    by (simp add: parseTextLine_def e new_def append_child_def set_textNode_def Node_init_def)
qed

section \<open>Traversal with a level limit\<close>

lemma flatten_children_member:
  assumes "flatten_children f cs = Some ds" and "n \<in> set ds"
  shows "\<exists>c \<in> set cs. \<exists>ys. f c = Some ys \<and> n \<in> set ys"
  using assms
proof (induction cs arbitrary: ds)
  case Nil
  then show ?case by simp
next
  case (Cons c cs)
  from Cons.prems(1) obtain ys es where ys: "f c = Some ys"
    and es: "flatten_children f cs = Some es" and ds: "ds = ys @ es"
    by (auto split: option.splits)
  from Cons.prems(2) ds consider "n \<in> set ys" | "n \<in> set es" by auto
  then show ?case
  proof cases
    case 1
    with ys show ?thesis by auto
  next
    case 2
    from Cons.IH[OF es 2] show ?thesis by auto
  qed
qed

lemma flatten_children_subset:
  assumes "flatten_children f cs = Some ds" and "c \<in> set cs" and "f c = Some ys"
  shows "set ys \<subseteq> set ds"
  using assms
proof (induction cs arbitrary: ds)
  case Nil
  then show ?case by simp
next
  case (Cons x cs)
  from Cons.prems(1) obtain xs es where xs: "f x = Some xs"
    and es: "flatten_children f cs = Some es" and ds: "ds = xs @ es"
    by (auto split: option.splits)
  show ?case
  proof (cases "c = x")
    case True
    with xs Cons.prems(3) ds show ?thesis by auto
  next
    case False
    with Cons.prems(2) have "c \<in> set cs" by simp
    from Cons.IH[OF es this Cons.prems(3)] ds show ?thesis by auto
  qed
qed


text \<open>The unlimited traversal: the node, then what its children yield.\<close>

lemma flatten_whole_Suc:
  "dfFlattenNodeTree (Suc fuel) s a 0 = Some ys \<longleftrightarrow>
   (\<exists>ds. flatten_children (\<lambda>c. dfFlattenNodeTree fuel s c 0) (children (obj s a)) = Some ds
         \<and> ys = a # ds)"
  by (auto split: option.splits)

lemma flatten_levels_ge:
  assumes "dfFlattenNodeTree fuel s a 0 = Some ys"
    and "\<forall>p \<in> set ys. \<forall>c \<in> set (children (obj s p)). level (obj s p) \<le> level (obj s c)"
    and "n \<in> set ys"
  shows "level (obj s a) \<le> level (obj s n)"
  using assms
proof (induction fuel arbitrary: a ys n)
  case 0
  then show ?case by simp
next
  case (Suc fuel)
  from Suc.prems(1) obtain ds where
    ds: "flatten_children (\<lambda>c. dfFlattenNodeTree fuel s c 0) (children (obj s a)) = Some ds"
    and ys: "ys = a # ds" unfolding flatten_whole_Suc by blast
  show ?case
  proof (cases "n = a")
    case True
    then show ?thesis by simp
  next
    case False
    with Suc.prems(3) ys have "n \<in> set ds" by simp
    from flatten_children_member[OF ds this] obtain c zs where c: "c \<in> set (children (obj s a))"
      and zs: "dfFlattenNodeTree fuel s c 0 = Some zs" and n: "n \<in> set zs" by blast
    from flatten_children_subset[OF ds c zs] ys have sub: "set zs \<subseteq> set ys" by auto
    with Suc.prems(2) have
      "\<forall>p \<in> set zs. \<forall>c \<in> set (children (obj s p)). level (obj s p) \<le> level (obj s c)"
      by blast
    from Suc.IH[OF zs this n] have "level (obj s c) \<le> level (obj s n)" .
    moreover from Suc.prems(2) ys c have "level (obj s a) \<le> level (obj s c)" by simp
    ultimately show ?thesis by simp
  qed
qed

lemma flatten_children_filter:
  assumes "flatten_children f cs = Some ds"
    and "\<And>c ys. c \<in> set cs \<Longrightarrow> f c = Some ys \<Longrightarrow> g c = Some (filter P ys)"
  shows "flatten_children g cs = Some (filter P ds)"
  using assms
proof (induction cs arbitrary: ds)
  case Nil
  then show ?case by simp
next
  case (Cons c cs)
  from Cons.prems(1) obtain ys es where ys: "f c = Some ys"
    and es: "flatten_children f cs = Some es" and ds: "ds = ys @ es"
    by (auto split: option.splits)
  from Cons.prems(2)[of c ys] ys have g: "g c = Some (filter P ys)" by simp
  have "flatten_children g cs = Some (filter P es)"
    by (rule Cons.IH[OF es]) (simp add: Cons.prems(2))
  with g ds show ?case by simp
qed

lemma flatten_limited:
  assumes "dfFlattenNodeTree fuel s a 0 = Some ys"
    and "\<forall>p \<in> set ys. \<forall>c \<in> set (children (obj s p)). level (obj s p) \<le> level (obj s c)"
    and "0 < k"
  shows "dfFlattenNodeTree fuel s a k = Some (filter (\<lambda>n. level (obj s n) \<le> k) ys)"
  using assms(1,2)
proof (induction fuel arbitrary: a ys)
  case 0
  then show ?case by simp
next
  case (Suc fuel)
  from Suc.prems(1) obtain ds where
    ds: "flatten_children (\<lambda>c. dfFlattenNodeTree fuel s c 0) (children (obj s a)) = Some ds"
    and ys: "ys = a # ds" unfolding flatten_whole_Suc by blast
  show ?case
  proof (cases "k < level (obj s a)")
    case True
    have "\<forall>n \<in> set ys. k < level (obj s n)"
      using flatten_levels_ge[OF Suc.prems(1,2)] True by fastforce
    then have "filter (\<lambda>n. level (obj s n) \<le> k) ys = []"
      by (auto simp: filter_empty_conv)
    with True assms(3) show ?thesis by simp
  next
    case False
    have "flatten_children (\<lambda>c. dfFlattenNodeTree fuel s c k) (children (obj s a))
          = Some (filter (\<lambda>n. level (obj s n) \<le> k) ds)"
    proof (rule flatten_children_filter[OF ds])
      fix c zs assume c: "c \<in> set (children (obj s a))"
        and zs: "dfFlattenNodeTree fuel s c 0 = Some zs"
      from flatten_children_subset[OF ds c zs] ys have "set zs \<subseteq> set ys" by auto
      with Suc.prems(2) have
        "\<forall>p \<in> set zs. \<forall>c \<in> set (children (obj s p)). level (obj s p) \<le> level (obj s c)"
        by blast
      from Suc.IH[OF zs this]
      show "dfFlattenNodeTree fuel s c k = Some (filter (\<lambda>n. level (obj s n) \<le> k) zs)" .
    qed
    with False ys show ?thesis by simp
  qed
qed




section \<open>Decoration of a span\<close>

text \<open>The three tag wrappers, by the field that switches each on.\<close>

definition wrap_link :: "string option \<Rightarrow> string \<Rightarrow> string" where
  "wrap_link h t =
     (case h of None \<Rightarrow> t | Some u \<Rightarrow> ''<a href='' @ [dquote] @ u @ [dquote] @ ''>'' @ t @ ''</a>'')"

definition wrap_bold :: "bool \<Rightarrow> string \<Rightarrow> string" where
  "wrap_bold b t = (if b then ''<strong>'' @ t @ ''</strong>'' else t)"

definition wrap_italic :: "bool \<Rightarrow> string \<Rightarrow> string" where
  "wrap_italic i t = (if i then ''<em>'' @ t @ ''</em>'' else t)"

text \<open>
  What one step of the loop of \<open>decorate\<close> does with \<open>htmlDecorator\<close>: the
  attribute named \<open>name\<close> wraps the text built so far, or leaves it as it is.
\<close>

definition wrap :: "Text \<Rightarrow> string \<Rightarrow> string \<Rightarrow> string" where
  "wrap sp name t =
     (if name = ''bold'' then wrap_bold (bold sp) t
      else if name = ''italic'' then wrap_italic (italic sp) t
      else if name = ''href'' then wrap_link (href sp) t
      else t)"

text \<open>All the steps, in the order of iteration: the first name is innermost.\<close>

definition decorated :: "string list \<Rightarrow> Text \<Rightarrow> string" where
  "decorated order sp = foldl (\<lambda>t name. wrap sp name t) (s_text sp) order"

lemma iteritems_Cons:
  "iteritems (n # order) d =
     (case d n of None \<Rightarrow> iteritems order d | Some v \<Rightarrow> (n, v) # iteritems order d)"
  by (simp add: iteritems_def List.map_filter_def split: option.splits)

lemma iteritems_Nil: "iteritems [] d = []"
  by (simp add: iteritems_def List.map_filter_def)

lemma decorator_step:
  "(case vars sp n of
      None \<Rightarrow> Inr t
    | Some v \<Rightarrow> htmlDecorator sp n v t) = Inr (wrap sp n t)"
  by (cases "href sp")
     (simp_all add: vars_def htmlDecorator_def wrap_def wrap_bold_def wrap_italic_def
        wrap_link_def)

lemma decorate_loop_fold:
  "decorate_loop htmlDecorator sp (iteritems order (vars sp)) t
   = Inr (foldl (\<lambda>t name. wrap sp name t) t order)"
proof (induction order arbitrary: t)
  case Nil
  show ?case by (simp add: iteritems_Nil)
next
  case (Cons n order)
  show ?case
  proof (cases "vars sp n")
    case None
    with decorator_step[where sp=sp and n=n and t=t] have "wrap sp n t = t" by simp
    with None Cons show ?thesis by (simp add: iteritems_Cons)
  next
    case (Some v)
    with decorator_step[where sp=sp and n=n and t=t] have "htmlDecorator sp n v t = Inr (wrap sp n t)" by simp
    with Some Cons show ?thesis by (simp add: iteritems_Cons)
  qed
qed

lemma decorate_decorated: "decorate order sp htmlDecorator = Inr (decorated order sp)"
  by (simp add: decorate_def decorated_def decorate_loop_fold)

lemma html_of_spans_decorated:
  "html_of_spans order spans html = Inr (html @ concat (map (decorated order) spans))"
  by (induction spans arbitrary: html) (simp_all add: decorate_decorated)

lemma getHtmlFromLine_decorated:
  "getHtmlFromLine order spans = Inr (concat (map (decorated order) spans))"
  by (simp add: getHtmlFromLine_def html_of_spans_decorated)

lemma decorated_hash_order:
  "decorated [''text'', ''href'', ''bold'', ''italic''] sp
   = wrap_italic (italic sp) (wrap_bold (bold sp) (wrap_link (href sp) (s_text sp)))"
  by (simp add: decorated_def wrap_def)

text \<open>Only the names bold, italic and href wrap anything.\<close>

lemma fold_wrap_filter:
  "foldl (\<lambda>t name. wrap sp name t) t order
   = foldl (\<lambda>t name. wrap sp name t) t
       (filter (\<lambda>n. n \<in> {''bold'', ''italic'', ''href''}) order)"
proof (induction order arbitrary: t)
  case Nil
  show ?case by simp
next
  case (Cons n order)
  show ?case
  proof (cases "n \<in> {''bold'', ''italic'', ''href''}")
    case True
    with Cons show ?thesis by simp
  next
    case False
    then have "wrap sp n t = t" by (simp add: wrap_def)
    with False Cons show ?thesis by simp
  qed
qed

lemma decorated_italic_bold_href:
  assumes "filter (\<lambda>n. n \<in> {''bold'', ''italic'', ''href''}) order = [''italic'', ''bold'', ''href'']"
  shows "decorated order sp
         = wrap_link (href sp) (wrap_bold (bold sp) (wrap_italic (italic sp) (s_text sp)))"
proof -
  have "decorated order sp
        = foldl (\<lambda>t name. wrap sp name t) (s_text sp) [''italic'', ''bold'', ''href'']"
    unfolding decorated_def by (subst fold_wrap_filter) (simp only: assms)
  then show ?thesis by (simp add: wrap_def)
qed

lemma wrap_longer:
  assumes "bold sp" and "italic sp" and "href sp = Some u"
    and "n \<in> {''bold'', ''italic'', ''href''}"
  shows "length t < length (wrap sp n t)"
  using assms by (auto simp: wrap_def wrap_bold_def wrap_italic_def wrap_link_def)

lemma fold_wrap_longer:
  assumes "bold sp" and "italic sp" and "href sp = Some u"
    and "set W \<subseteq> {''bold'', ''italic'', ''href''}"
  shows "length t \<le> length (foldl (\<lambda>t name. wrap sp name t) t W)
       \<and> (W \<noteq> [] \<longrightarrow> length t < length (foldl (\<lambda>t name. wrap sp name t) t W))"
  using assms(4)
proof (induction W arbitrary: t)
  case Nil
  show ?case by simp
next
  case (Cons n W)
  from Cons.prems have n: "n \<in> {''bold'', ''italic'', ''href''}"
    and W: "set W \<subseteq> {''bold'', ''italic'', ''href''}" by simp_all
  from wrap_longer[OF assms(1-3) n, of t] Cons.IH[OF W, of "wrap sp n t"]
  show ?case by simp
qed

lemma peel_link:
  assumes "bold sp" and "italic sp" and "href sp = Some u"
    and "n \<in> {''bold'', ''italic'', ''href''}"
    and "wrap sp n x = wrap_link (Some u) y"
  shows "n = ''href'' \<and> x = y"
  using assms by (auto simp: wrap_def wrap_bold_def wrap_italic_def wrap_link_def)

lemma peel_bold:
  assumes "bold sp" and "italic sp" and "href sp = Some u"
    and "n \<in> {''bold'', ''italic'', ''href''}"
    and "wrap sp n x = wrap_bold True y"
  shows "n = ''bold'' \<and> x = y"
  using assms by (auto simp: wrap_def wrap_bold_def wrap_italic_def wrap_link_def)

lemma peel_italic:
  assumes "bold sp" and "italic sp" and "href sp = Some u"
    and "n \<in> {''bold'', ''italic'', ''href''}"
    and "wrap sp n x = wrap_italic True y"
  shows "n = ''italic'' \<and> x = y"
  using assms by (auto simp: wrap_def wrap_bold_def wrap_italic_def wrap_link_def)

lemma nesting_only_if:
  assumes b: "bold sp" and i: "italic sp" and h: "href sp = Some u"
    and W: "set W \<subseteq> {''bold'', ''italic'', ''href''}"
    and eq: "foldl (\<lambda>t name. wrap sp name t) t W
             = wrap_link (Some u) (wrap_bold True (wrap_italic True t))"
  shows "W = [''italic'', ''bold'', ''href'']"
proof -
  let ?f = "\<lambda>W. foldl (\<lambda>t name. wrap sp name t) t W"
  have l3: "length t < length (wrap_link (Some u) (wrap_bold True (wrap_italic True t)))"
    and l2: "length t < length (wrap_bold True (wrap_italic True t))"
    and l1: "length t < length (wrap_italic True t)"
    by (simp_all add: wrap_bold_def wrap_italic_def wrap_link_def)
  from eq l3 have "W \<noteq> []" by auto
  then obtain W1 w1 where W1: "W = W1 @ [w1]" by (cases W rule: rev_cases) auto
  with W have w1: "w1 \<in> {''bold'', ''italic'', ''href''}"
    and sW1: "set W1 \<subseteq> {''bold'', ''italic'', ''href''}" by simp_all
  from eq W1 have "wrap sp w1 (?f W1) = wrap_link (Some u) (wrap_bold True (wrap_italic True t))"
    by simp
  from peel_link[OF b i h w1 this] have e1: "w1 = ''href''"
    and eq1: "?f W1 = wrap_bold True (wrap_italic True t)" by simp_all
  from eq1 l2 have "W1 \<noteq> []" by auto
  then obtain W2 w2 where W2: "W1 = W2 @ [w2]" by (cases W1 rule: rev_cases) auto
  with sW1 have w2: "w2 \<in> {''bold'', ''italic'', ''href''}"
    and sW2: "set W2 \<subseteq> {''bold'', ''italic'', ''href''}" by simp_all
  from eq1 W2 have "wrap sp w2 (?f W2) = wrap_bold True (wrap_italic True t)" by simp
  from peel_bold[OF b i h w2 this] have e2: "w2 = ''bold''"
    and eq2: "?f W2 = wrap_italic True t" by simp_all
  from eq2 l1 have "W2 \<noteq> []" by auto
  then obtain W3 w3 where W3: "W2 = W3 @ [w3]" by (cases W2 rule: rev_cases) auto
  with sW2 have w3: "w3 \<in> {''bold'', ''italic'', ''href''}"
    and sW3: "set W3 \<subseteq> {''bold'', ''italic'', ''href''}" by simp_all
  from eq2 W3 have "wrap sp w3 (?f W3) = wrap_italic True t" by simp
  from peel_italic[OF b i h w3 this] have e3: "w3 = ''italic''"
    and eq3: "?f W3 = t" by simp_all
  from fold_wrap_longer[OF b i h sW3, of t] eq3 have "W3 = []" by auto
  with W1 W2 W3 e1 e2 e3 show ?thesis by simp
qed

lemma decorated_only_if:
  assumes "bold sp" and "italic sp" and "href sp = Some u"
    and "decorated order sp
         = wrap_link (href sp) (wrap_bold (bold sp) (wrap_italic (italic sp) (s_text sp)))"
  shows "filter (\<lambda>n. n \<in> {''bold'', ''italic'', ''href''}) order = [''italic'', ''bold'', ''href'']"
proof (rule nesting_only_if[OF assms(1-3)])
  show "set (filter (\<lambda>n. n \<in> {''bold'', ''italic'', ''href''}) order)
        \<subseteq> {''bold'', ''italic'', ''href''}" by auto
  show "foldl (\<lambda>t name. wrap sp name t) (s_text sp)
          (filter (\<lambda>n. n \<in> {''bold'', ''italic'', ''href''}) order)
        = wrap_link (Some u) (wrap_bold True (wrap_italic True (s_text sp)))"
    using assms fold_wrap_filter[of sp "s_text sp" order] by (simp add: decorated_def)
qed



subsection \<open>The HTML of lines and headings\<close>

text \<open>
  What the renderer is to produce for a line, a heading and a list of headings when
  nothing raises: every heading is a HeadingNode and every line a TextNode.
\<close>

definition render_line :: "string list \<Rightarrow> store \<Rightarrow> ref \<Rightarrow> string" where
  "render_line order s l =
     str_mul (str_mul ''&nbsp;'' (level (obj s l) - 1)) 2
     @ concat (map (decorated order) (n_text (body (obj s l)))) @ ''<br>''"

definition text_lines_of :: "nat \<Rightarrow> store \<Rightarrow> ref \<Rightarrow> ref list" where
  "text_lines_of fuel s h = (case getTextLines fuel s h of Some (Inr ls) \<Rightarrow> ls | _ \<Rightarrow> [])"

definition render_heading :: "nat \<Rightarrow> string list \<Rightarrow> store \<Rightarrow> ref \<Rightarrow> string" where
  "render_heading fuel order s h =
     ''<a name='' @ [dquote] @ remove_spaces (title (body (obj s h))) @ [dquote]
     @ ''></a><strong>'' @ title (body (obj s h)) @ ''</strong><br>''
     @ concat (map (render_line order s) (text_lines_of fuel s h))"

definition renderable :: "nat \<Rightarrow> store \<Rightarrow> ref \<Rightarrow> bool" where
  "renderable fuel s h =
     (is_heading (obj s h)
      \<and> (case getTextLines fuel s h of
            Some (Inr ls) \<Rightarrow> list_all (\<lambda>l. is_text (obj s l)) ls
          | _ \<Rightarrow> False))"

lemma line_html_render:
  assumes "is_text (obj s l)"
  shows "line_html order s l = Inr (render_line order s l)"
  using assms
  by (cases "body (obj s l)")
     (simp_all add: is_text_def line_html_def render_line_def getHtmlFromLine_decorated)

lemma lines_html_render:
  assumes "list_all (\<lambda>l. is_text (obj s l)) ls"
  shows "lines_html order s ls html = Inr (html @ concat (map (render_line order s) ls))"
  using assms
  by (induction ls arbitrary: html) (simp_all add: line_html_render)

lemma getHtmlFromHeading_render:
  assumes "renderable fuel s h"
  shows "getHtmlFromHeading fuel order s h = Some (Inr (render_heading fuel order s h))"
proof -
  from assms obtain t tn where b: "body (obj s h) = HeadingNode t tn"
    by (auto simp: renderable_def is_heading_def split: body.splits)
  from assms obtain ls where g: "getTextLines fuel s h = Some (Inr ls)"
    and t: "list_all (\<lambda>l. is_text (obj s l)) ls"
    by (auto simp: renderable_def split: option.splits sum.splits)
  show ?thesis
    by (simp add: getHtmlFromHeading_def b g lines_html_render[OF t] render_heading_def
          text_lines_of_def)
qed

lemma headings_html_render:
  assumes "list_all (renderable fuel s) hs"
  shows "headings_html fuel order s hs html
         = Some (Inr (html @ concat (map (\<lambda>h. ''<p>'' @ render_heading fuel order s h @ ''</p>'') hs)))"
  using assms
  by (induction hs arbitrary: html) (simp_all add: getHtmlFromHeading_render)

lemma getHtmlFromHeadings_render:
  assumes "dfFlattenNodeTree fuel s a 0 = Some hs" and "list_all (renderable fuel s) hs"
  shows "getHtmlFromHeadings fuel order s a
         = Some (Inr (concat (map (\<lambda>h. ''<p>'' @ render_heading fuel order s h @ ''</p>'') hs)))"
  by (simp add: getHtmlFromHeadings_def assms(1) headings_html_render[OF assms(2)])

text \<open>
  C9, as amended. The decoration of a span is a function of the span's fields and of
  the order in which its attributes are iterated, whatever that order is: each name
  in that order wraps the text built so far (the link only when \<open>href\<close> is set, bold
  and italic only when the flag is true), so the first wrapper is innermost. Every
  span of a line is decorated so, and the HTML of a list of headings is made of the
  lines so decorated. In the order text, href, bold, italic (the slots 1, 3, 5, 6 that
  the hashes of these four key strings take in the eight-slot table of a CPython 2
  dict) the link is innermost, bold is around it and italic is outermost. The link is
  outermost, with bold inside it and italic innermost, whenever italic, bold and href
  are iterated in this order; for a span that has all three, in no other case.
\<close>

theorem decorate_nesting:
  "decorate order sp htmlDecorator = Inr (decorated order sp)
   \<and> getHtmlFromLine order spans = Inr (concat (map (decorated order) spans))
   \<and> (dfFlattenNodeTree fuel s a 0 = Some hs \<and> list_all (renderable fuel s) hs \<longrightarrow>
        getHtmlFromHeadings fuel order s a
        = Some (Inr (concat (map (\<lambda>h. ''<p>'' @ render_heading fuel order s h @ ''</p>'') hs))))
   \<and> decorate [''text'', ''href'', ''bold'', ''italic''] sp htmlDecorator
       = Inr (wrap_italic (italic sp) (wrap_bold (bold sp) (wrap_link (href sp) (s_text sp))))
   \<and> (filter (\<lambda>n. n \<in> {''bold'', ''italic'', ''href''}) order = [''italic'', ''bold'', ''href'']
        \<longrightarrow> decorate order sp htmlDecorator
            = Inr (wrap_link (href sp) (wrap_bold (bold sp) (wrap_italic (italic sp) (s_text sp)))))
   \<and> (bold sp \<and> italic sp \<and> href sp \<noteq> None
        \<and> decorate order sp htmlDecorator
            = Inr (wrap_link (href sp) (wrap_bold (bold sp) (wrap_italic (italic sp) (s_text sp))))
        \<longrightarrow> filter (\<lambda>n. n \<in> {''bold'', ''italic'', ''href''}) order
            = [''italic'', ''bold'', ''href''])"
proof (intro conjI impI)
  show "decorate order sp htmlDecorator = Inr (decorated order sp)"
    by (rule decorate_decorated)
  show "getHtmlFromLine order spans = Inr (concat (map (decorated order) spans))"
    by (rule getHtmlFromLine_decorated)
  show "getHtmlFromHeadings fuel order s a
        = Some (Inr (concat (map (\<lambda>h. ''<p>'' @ render_heading fuel order s h @ ''</p>'') hs)))"
    if "dfFlattenNodeTree fuel s a 0 = Some hs \<and> list_all (renderable fuel s) hs"
    using that getHtmlFromHeadings_render[of fuel s a hs order] by simp
  show "decorate [''text'', ''href'', ''bold'', ''italic''] sp htmlDecorator
        = Inr (wrap_italic (italic sp) (wrap_bold (bold sp) (wrap_link (href sp) (s_text sp))))"
    by (simp only: decorate_decorated decorated_hash_order)
  show "decorate order sp htmlDecorator
        = Inr (wrap_link (href sp) (wrap_bold (bold sp) (wrap_italic (italic sp) (s_text sp))))"
    if "filter (\<lambda>n. n \<in> {''bold'', ''italic'', ''href''}) order = [''italic'', ''bold'', ''href'']"
    by (simp only: decorate_decorated decorated_italic_bold_href[OF that])
  show "filter (\<lambda>n. n \<in> {''bold'', ''italic'', ''href''}) order = [''italic'', ''bold'', ''href'']"
    if h: "bold sp \<and> italic sp \<and> href sp \<noteq> None
        \<and> decorate order sp htmlDecorator
            = Inr (wrap_link (href sp) (wrap_bold (bold sp) (wrap_italic (italic sp) (s_text sp))))"
  proof -
    from h obtain u where u: "href sp = Some u" by auto
    from h have "decorated order sp
        = wrap_link (href sp) (wrap_bold (bold sp) (wrap_italic (italic sp) (s_text sp)))"
      by (simp add: decorate_decorated)
    with h u show ?thesis using decorated_only_if[of sp u order] by simp
  qed
qed

theorem decorate_nesting_witness:
  "decorate [''italic'', ''bold'', ''href'', ''text'']
     \<lparr>s_text = ''x'', bold = True, italic = True, href = Some ''u''\<rparr> htmlDecorator
   = Inr (''<a href='' @ [dquote] @ ''u'' @ [dquote] @ ''><strong><em>x</em></strong></a>'')
   \<and> filter (\<lambda>n. n \<in> {''bold'', ''italic'', ''href''}) [''italic'', ''bold'', ''href'', ''text'']
       = [''italic'', ''bold'', ''href'']
   \<and> getHtmlFromLine [''text'', ''href'', ''bold'', ''italic'']
         [\<lparr>s_text = ''x'', bold = True, italic = False, href = Some ''u''\<rparr>, Text_init ''y'']
       = Inr (''<strong><a href='' @ [dquote] @ ''u'' @ [dquote] @ ''>x</a></strong>y'')
   \<and> (case parseString Parser_init (''=H'' @ [newline] @ ''__b__ [[u|x]]'') of
         Some (Inr p) \<Rightarrow>
           getHtmlFromHeadings (next_ref (heap p)) [''text'', ''href'', ''bold'', ''italic'']
             (heap p) 1
           = Some (Inr (''<p><a name='' @ [dquote] @ ''H'' @ [dquote]
                        @ ''></a><strong>H</strong><br><strong>b</strong> <a href=''
                        @ [dquote] @ ''u'' @ [dquote] @ ''>x</a><br></p>''))
       | _ \<Rightarrow> False)"
proof -
  let ?sp = "\<lparr>s_text = ''x'', bold = True, italic = True, href = Some ''u''\<rparr>"
  let ?o1 = "[''italic'', ''bold'', ''href'', ''text'']"
  let ?o2 = "[''text'', ''href'', ''bold'', ''italic'']"
  let ?doc = "''=H'' @ [newline] @ ''__b__ [[u|x]]''"
  have f: "filter (\<lambda>n. n \<in> {''bold'', ''italic'', ''href''}) ?o1 = [''italic'', ''bold'', ''href'']"
    by simp
  note line = decorate_nesting[THEN conjunct2, THEN conjunct1]
  note nest = decorate_nesting[THEN conjunct2, THEN conjunct2, THEN conjunct2, THEN conjunct2,
      THEN conjunct1, THEN mp]
  have "decorate ?o1 ?sp htmlDecorator
        = Inr (wrap_link (href ?sp) (wrap_bold (bold ?sp) (wrap_italic (italic ?sp) (s_text ?sp))))"
    by (rule nest) (rule f)
  then have a: "decorate ?o1 ?sp htmlDecorator
           = Inr (''<a href='' @ [dquote] @ ''u'' @ [dquote] @ ''><strong><em>x</em></strong></a>'')"
    by (simp add: wrap_link_def wrap_bold_def wrap_italic_def)
  have b: "getHtmlFromLine ?o2
             [\<lparr>s_text = ''x'', bold = True, italic = False, href = Some ''u''\<rparr>, Text_init ''y'']
           = Inr (''<strong><a href='' @ [dquote] @ ''u'' @ [dquote] @ ''>x</a></strong>y'')"
    by (subst line)
       (simp add: decorated_def wrap_def wrap_link_def wrap_bold_def wrap_italic_def Text_init_def)
  have ev: "(case parseString Parser_init ?doc of
      Some (Inr p) \<Rightarrow>
        dfFlattenNodeTree (next_ref (heap p)) (heap p) 1 0 = Some [1]
        \<and> renderable (next_ref (heap p)) (heap p) 1
        \<and> render_heading (next_ref (heap p)) ?o2 (heap p) 1
            = ''<a name='' @ [dquote] @ ''H'' @ [dquote]
              @ ''></a><strong>H</strong><br><strong>b</strong> <a href=''
              @ [dquote] @ ''u'' @ [dquote] @ ''>x</a><br>''
    | _ \<Rightarrow> False)"
    by code_simp
  then obtain p where p: "parseString Parser_init ?doc = Some (Inr p)"
    by (auto split: option.splits sum.splits)
  with ev have fl: "dfFlattenNodeTree (next_ref (heap p)) (heap p) 1 0 = Some [1]"
    and r: "renderable (next_ref (heap p)) (heap p) 1"
    and h: "render_heading (next_ref (heap p)) ?o2 (heap p) 1
            = ''<a name='' @ [dquote] @ ''H'' @ [dquote]
              @ ''></a><strong>H</strong><br><strong>b</strong> <a href=''
              @ [dquote] @ ''u'' @ [dquote] @ ''>x</a><br>''"
    by simp_all
  from r have ra: "list_all (renderable (next_ref (heap p)) (heap p)) [1]" by simp
  note render = decorate_nesting[THEN conjunct2, THEN conjunct2, THEN conjunct1, THEN mp]
  have "getHtmlFromHeadings (next_ref (heap p)) ?o2 (heap p) 1
        = Some (Inr (concat (map (\<lambda>h. ''<p>'' @ render_heading (next_ref (heap p)) ?o2 (heap p) h
                                     @ ''</p>'') [1])))"
    by (rule render) (use fl ra in blast)
  then have c: "getHtmlFromHeadings (next_ref (heap p)) ?o2 (heap p) 1
        = Some (Inr (''<p><a name='' @ [dquote] @ ''H'' @ [dquote]
                        @ ''></a><strong>H</strong><br><strong>b</strong> <a href=''
                        @ [dquote] @ ''u'' @ [dquote] @ ''>x</a><br></p>''))"
    by (simp add: h del: One_nat_def)
  from a f b p c show ?thesis by simp
qed

text \<open>
  C9 as stated fails: in the order text, href, bold, italic a bold and italic link is
  rendered with the link innermost.
\<close>

theorem decorate_nesting_counterexample:
  "decorate [''text'', ''href'', ''bold'', ''italic'']
     \<lparr>s_text = ''x'', bold = True, italic = True, href = Some ''u''\<rparr> htmlDecorator
   = Inr (''<em><strong><a href='' @ [dquote] @ ''u'' @ [dquote] @ ''>x</a></strong></em>'')
   \<and> decorate [''text'', ''href'', ''bold'', ''italic'']
     \<lparr>s_text = ''x'', bold = True, italic = True, href = Some ''u''\<rparr> htmlDecorator
   \<noteq> Inr (''<a href='' @ [dquote] @ ''u'' @ [dquote] @ ''><strong><em>x</em></strong></a>'')"
  by code_simp

section \<open>Traversal of the trees the parser builds\<close>

lemma flatten_children_same:
  assumes "flatten_children f cs = Some ds"
    and "\<And>c ys. c \<in> set cs \<Longrightarrow> f c = Some ys \<Longrightarrow> g c = Some ys"
  shows "flatten_children g cs = Some ds"
  using flatten_children_filter[OF assms(1), of g "\<lambda>n. True"] assms(2) by simp

lemma flatten_children_total:
  assumes "\<And>c. c \<in> set cs \<Longrightarrow> \<exists>ys. f c = Some ys"
  shows "\<exists>ds. flatten_children f cs = Some ds"
  using assms
proof (induction cs)
  case Nil
  show ?case by simp
next
  case (Cons c cs)
  from Cons.prems[of c] obtain ys where "f c = Some ys" by auto
  moreover from Cons.IH Cons.prems obtain es where "flatten_children f cs = Some es" by auto
  ultimately show ?case by simp
qed

text \<open>More fuel does not change what a traversal returns.\<close>

lemma flatten_fuel_Suc:
  "dfFlattenNodeTree fuel s a k = Some xs \<Longrightarrow> dfFlattenNodeTree (Suc fuel) s a k = Some xs"
proof (induction fuel arbitrary: a xs)
  case 0
  then show ?case by simp
next
  case (Suc fuel)
  show ?case
  proof (cases "k \<noteq> 0 \<and> k < level (obj s a)")
    case True
    with Suc.prems show ?thesis by simp
  next
    case False
    with Suc.prems obtain ds where
      ds: "flatten_children (\<lambda>c. dfFlattenNodeTree fuel s c k) (children (obj s a)) = Some ds"
      and xs: "xs = a # ds"
      by (auto split: option.splits)
    have "flatten_children (\<lambda>c. dfFlattenNodeTree (Suc fuel) s c k) (children (obj s a)) = Some ds"
      by (rule flatten_children_same[OF ds]) (rule Suc.IH)
    with False xs show ?thesis by (simp del: dfFlattenNodeTree.simps(2) add: dfFlattenNodeTree.simps(2)[of "Suc fuel"])
  qed
qed

lemma flatten_fuel_mono:
  assumes "dfFlattenNodeTree fuel s a k = Some xs" and "fuel \<le> fuel'"
  shows "dfFlattenNodeTree fuel' s a k = Some xs"
  using assms(2)
proof (induction rule: dec_induct)
  case base
  show ?case by (rule assms(1))
next
  case (step n)
  from step.IH show ?case by (rule flatten_fuel_Suc)
qed

text \<open>In a well-formed store a traversal from an allocated node ends within the fuel
  \<open>next_ref s - a\<close>.\<close>

lemma flatten_returns:
  assumes wf: "wf_store s"
  shows "a < next_ref s \<Longrightarrow> \<exists>xs. dfFlattenNodeTree (next_ref s - a) s a k = Some xs"
proof (induction "next_ref s - a" arbitrary: a rule: less_induct)
  case less
  from less.prems obtain fuel where fuel: "next_ref s - a = Suc fuel"
    by (cases "next_ref s - a") auto
  have "\<exists>ds. flatten_children (\<lambda>c. dfFlattenNodeTree fuel s c k) (children (obj s a)) = Some ds"
  proof (rule flatten_children_total)
    fix c assume "c \<in> set (children (obj s a))"
    from wf_child[OF wf less.prems this] have ac: "a < c" and c: "c < next_ref s" by simp_all
    then have "next_ref s - c < next_ref s - a" by simp
    from less.hyps[OF this c] obtain ys where
      "dfFlattenNodeTree (next_ref s - c) s c k = Some ys" by blast
    moreover have "next_ref s - c \<le> fuel" using ac c fuel by simp
    ultimately have "dfFlattenNodeTree fuel s c k = Some ys" by (rule flatten_fuel_mono)
    then show "\<exists>ys. dfFlattenNodeTree fuel s c k = Some ys" by blast
  qed
  then show ?case unfolding fuel by auto
qed



text \<open>What holds at the start of a traversal and passes to children holds of all it yields.\<close>

lemma flatten_invariant:
  assumes "dfFlattenNodeTree fuel s a k = Some ys" and "Q a"
    and step: "\<And>q c. Q q \<Longrightarrow> c \<in> set (children (obj s q)) \<Longrightarrow> Q c"
  shows "\<forall>n \<in> set ys. Q n"
  using assms(1,2)
proof (induction fuel arbitrary: a ys)
  case 0
  then show ?case by simp
next
  case (Suc fuel)
  show ?case
  proof (cases "k \<noteq> 0 \<and> k < level (obj s a)")
    case True
    with Suc.prems(1) show ?thesis by simp
  next
    case False
    with Suc.prems(1) obtain ds where
      ds: "flatten_children (\<lambda>c. dfFlattenNodeTree fuel s c k) (children (obj s a)) = Some ds"
      and ys: "ys = a # ds"
      by (auto split: option.splits)
    show ?thesis
    proof
      fix n assume "n \<in> set ys"
      with ys consider "n = a" | "n \<in> set ds" by auto
      then show "Q n"
      proof cases
        case 1
        with Suc.prems(2) show ?thesis by simp
      next
        case 2
        from flatten_children_member[OF ds 2] obtain c zs where
          c: "c \<in> set (children (obj s a))" and zs: "dfFlattenNodeTree fuel s c k = Some zs"
          and n: "n \<in> set zs" by blast
        from step[OF Suc.prems(2) c] have "Q c" .
        from Suc.IH[OF zs this] n show ?thesis by simp
      qed
    qed
  qed
qed

section \<open>Empty lines\<close>



lemma ensure_text_root_Inr:
  assumes "body (obj (heap p) (currentHeading p)) = HeadingNode t tn"
  shows "\<exists>pe cur. ensure_text_root p = Inr (pe, cur) \<and> next_ref (heap p) \<le> next_ref (heap pe)"
proof (cases "\<exists>r c. tn = Some r \<and> currentText p = Some c")
  case True
  then obtain r c where "tn = Some r" "currentText p = Some c" by blast
  with assms have "ensure_text_root p = Inr (p, c)" by (simp add: ensure_text_root_def)
  then show ?thesis by simp
next
  case False
  with assms have "ensure_text_root p
      = Inr (p\<lparr>heap := set_textNode (currentHeading p) t (next_ref (heap p))
                         (snd (new (Node_init None 0) (heap p))),
                currentText := Some (next_ref (heap p))\<rparr>, next_ref (heap p))"
    by (auto simp: ensure_text_root_def new_def split: option.splits)
  then show ?thesis by (simp add: set_textNode_simps new_simps)
qed








text \<open>
  The document \<open>=H\<close> followed by two empty lines and a line of text: the heading is
  rendered with one \<open><br>\<close> for each empty line.
\<close>

lemma empty_lines_rendered:
  "(case parseString Parser_init (''=H'' @ [newline] @ [newline] @ [newline] @ ''x'') of
      Some (Inr p) \<Rightarrow>
        getHtmlFromHeadings (next_ref (heap p)) [''text'', ''href'', ''bold'', ''italic'']
          (heap p) 1
        = Some (Inr (''<p><a name='' @ [dquote] @ ''H'' @ [dquote]
                     @ ''></a><strong>H</strong><br><br><br>x<br></p>''))
    | _ \<Rightarrow> False)"
  by code_simp

text \<open>A trailing newline makes one more line, the empty one, parsed last.\<close>

lemma split_lines_nonempty: "split_lines d \<noteq> []"
  by (induction d) (auto split: list.splits)

lemma split_lines_trailing_newline: "split_lines (d @ [newline]) = split_lines d @ [[]]"
proof (induction d)
  case Nil
  show ?case by simp
next
  case (Cons c d)
  obtain l ls where "split_lines d = l # ls"
    using split_lines_nonempty[of d] by (cases "split_lines d") auto
  with Cons show ?case by simp
qed

lemma parseString_trailing_newline:
  "parseString p0 (d @ [newline]) =
     (case parseString p0 d of
        None \<Rightarrow> None
      | Some (Inl e) \<Rightarrow> Some (Inl e)
      | Some (Inr p) \<Rightarrow> parseLine p [])"
  by (simp add: parseString_def split_lines_trailing_newline parseLines_append
        split: option.splits sum.splits)

section \<open>Headings up to a level\<close>

text \<open>\<open>Parser.getHeadings\<close>\<close>

definition getHeadings :: "nat \<Rightarrow> Parser \<Rightarrow> int \<Rightarrow> ref list option" where
  "getHeadings fuel p maxLevel = dfFlattenDescendants fuel (heap p) (root p) maxLevel"

text \<open>In the heading tree a child has the level of its parent plus one.\<close>

lemma heading_tree_levels:
  assumes inv: "inv p" and whole: "dfFlattenNodeTree fuel (heap p) (root p) 0 = Some ys"
  shows "\<forall>q \<in> set ys. \<forall>c \<in> set (children (obj (heap p) q)).
           level (obj (heap p) c) = level (obj (heap p) q) + 1"
proof -
  define s where "s = heap p"
  define Q where "Q = (\<lambda>x. x < next_ref s \<and> (x = root p \<or> is_heading (obj s x)))"
  from inv have wf: "wf_store s" and rt: "root_ok s (root p)" and hl: "heading_levels s (root p)"
    and hk: "heading_children s (root p)"
    by (simp_all add: inv_def s_def)
  have kid: "Q c \<and> is_heading (obj s c) \<and> level (obj s c) = level (obj s q) + 1"
    if q: "Q q" and c: "c \<in> set (children (obj s q))" for q c
  proof -
    from q have q': "q < next_ref s" and k: "q = root p \<or> is_heading (obj s q)"
      by (simp_all add: Q_def)
    from wf_child[OF wf q' c] have c': "c < next_ref s" and pc: "parent (obj s c) = Some q"
      by simp_all
    from hk c' pc k have h: "is_heading (obj s c)" unfolding heading_children_def by blast
    with hl c' obtain q2 where "parent (obj s c) = Some q2"
      "level (obj s c) = level (obj s q2) + 1" unfolding heading_levels_def by blast
    with pc have "level (obj s c) = level (obj s q) + 1" by simp
    with c' h show ?thesis by (simp add: Q_def)
  qed
  from rt have "Q (root p)" by (simp add: Q_def root_ok_def)
  from flatten_invariant[of fuel s "root p" 0 ys Q, OF whole[folded s_def] this] kid
  have "\<forall>n \<in> set ys. Q n" by blast
  with kid show ?thesis unfolding s_def by blast
qed

text \<open>
  So on every parsed document the traversals of the heading tree return with the
  fuel \<open>next_ref\<close>, and a level limit \<open>k > 0\<close> keeps exactly the headings of level at
  most \<open>k\<close>, in the order of the unlimited traversal.
\<close>

lemma headings_limited:
  assumes parsed: "parseString Parser_init wtex = Some (Inr p)" and k: "0 < k"
  shows "\<exists>hs. getHeadings (next_ref (heap p)) p 0 = Some hs
             \<and> getHeadings (next_ref (heap p)) p k
                 = Some (filter (\<lambda>n. level (obj (heap p) n) \<le> k) hs)"
proof -
  from parseLines_inv[OF inv_init, of "split_lines wtex"] parsed
  have inv: "inv p" by (auto simp: parseString_def)
  define s where "s = heap p"
  define f where "f = next_ref s"
  from inv have wf: "wf_store s" and rt: "root_ok s (root p)"
    by (simp_all add: inv_def s_def)
  from rt have r: "root p < next_ref s" and l0: "level (obj s (root p)) = 0"
    by (simp_all add: root_ok_def)
  from flatten_returns[OF wf r, of 0] obtain ys where
    "dfFlattenNodeTree (next_ref s - root p) s (root p) 0 = Some ys" by blast
  then have whole: "dfFlattenNodeTree (Suc f) s (root p) 0 = Some ys"
    by (rule flatten_fuel_mono) (simp add: f_def)
  then obtain hs where
    hs: "flatten_children (\<lambda>c. dfFlattenNodeTree f s c 0) (children (obj s (root p))) = Some hs"
    and ys: "ys = root p # hs" unfolding flatten_whole_Suc by blast
  from heading_tree_levels[OF inv whole[unfolded s_def]]
  have mono: "\<forall>q \<in> set ys. \<forall>c \<in> set (children (obj s q)). level (obj s q) \<le> level (obj s c)"
    by (simp add: s_def)
  from flatten_limited[OF whole mono k]
  have "dfFlattenNodeTree (Suc f) s (root p) k = Some (filter (\<lambda>n. level (obj s n) \<le> k) ys)" .
  with ys l0 k have
    "flatten_children (\<lambda>c. dfFlattenNodeTree f s c k) (children (obj s (root p)))
     = Some (filter (\<lambda>n. level (obj s n) \<le> k) hs)"
    by (auto split: option.splits)
  with hs show ?thesis
    by (simp add: getHeadings_def dfFlattenDescendants_def s_def f_def)
qed

section \<open>Documents that parse\<close>

text \<open>
  The walk of insert does not run into the assertion on the way up: the levels asked
  for are at least 1 and a node without a parent has level 0.
\<close>

lemma insert_node_not_assert:
  assumes wf: "wf_store s" and r0: "roots_level0 s" and lvl: "1 \<le> lvl"
  shows "cur < next_ref s \<Longrightarrow> insert_node s cur lvl cr \<noteq> Some (Inl AssertionError)"
proof (induction cur rule: less_induct)
  case (less cur)
  consider (child) "lvl - 1 = level (obj s cur)"
    | (up) "lvl - 1 \<noteq> level (obj s cur)" "lvl \<le> level (obj s cur)"
    | (skip) "lvl - 1 \<noteq> level (obj s cur)" "\<not> lvl \<le> level (obj s cur)"
    by blast
  then show ?case
  proof cases
    case child
    then show ?thesis by (subst insert_node.simps) simp
  next
    case up
    show ?thesis
    proof (cases "parent (obj s cur)")
      case None
      with r0 less.prems have "level (obj s cur) = 0" by (simp add: roots_level0_def)
      with up lvl show ?thesis by simp
    next
      case (Some q)
      with up have eq: "insert_node s cur lvl cr = insert_node s q lvl cr"
        by (subst insert_node.simps) simp
      from wf_parent[OF wf less.prems Some] have q: "q < cur" by simp
      then have "q < next_ref s" using less.prems by simp
      from less.IH[OF q this] eq show ?thesis by simp
    qed
  next
    case skip
    then show ?thesis by (subst insert_node.simps) simp
  qed
qed

lemma heading_match_level:
  assumes "heading_match line = Some (g1, g2)"
  shows "1 \<le> int (length g1)"
proof -
  from assms have "g1 \<noteq> []"
    by (auto simp: heading_match_def Let_def split: if_splits)
  then show ?thesis by (cases g1) simp_all
qed

lemma parseHeading_ok:
  assumes inv: "inv p" and hm: "heading_match line \<noteq> None"
  shows "\<exists>p'. parseHeading p line = Some (Inr p') \<and> inv p' \<and> root p' = root p
              \<and> currentHeading p' \<noteq> root p'"
proof -
  from hm obtain g1 g2 where g: "heading_match line = Some (g1, g2)" by auto
  define s where "s = heap p"
  define lvl where "lvl = int (length g1)"
  define cr where "cr = (\<lambda>par. HeadingNode_init (Some par) lvl (strip g2))"
  from inv have wf: "wf_store s" and rt: "root_ok s (root p)" and r0: "roots_level0 s"
    and hc: "heading_cursor_ok s (root p) (currentHeading p)"
    by (simp_all add: inv_def s_def)
  from hc have cur: "currentHeading p < next_ref s" by (simp add: heading_cursor_ok_def)
  from rt have rn: "root p < next_ref s" by (simp add: root_ok_def)
  have ph: "parseHeading p line =
              (case insert_node s (currentHeading p) lvl cr of
                 None \<Rightarrow> None
               | Some (Inl e) \<Rightarrow> Some (Inl e)
               | Some (Inr (n, s')) \<Rightarrow>
                   Some (Inr (p\<lparr>heap := s', currentHeading := n, currentText := None\<rparr>)))"
    using g by (simp add: parseHeading_def Let_def lvl_def s_def cr_def)
  from heading_match_level[OF g] have l1: "1 \<le> lvl" by (simp add: lvl_def)
  from insert_node_walk[OF wf cur, of lvl cr] insert_node_not_assert[OF wf r0 l1 cur, of cr]
  obtain c where "insert_node s (currentHeading p) lvl cr
                  = Some (Inr (insert_child s c (placed s c lvl cr)))" by blast
  with ph have res: "parseHeading p line
      = Some (Inr (p\<lparr>heap := snd (insert_child s c (placed s c lvl cr)),
                      currentHeading := next_ref s, currentText := None\<rparr>))"
    by (simp add: case_prod_beta insert_child_simps)
  from parseHeading_step[OF inv, of line] res rn show ?thesis by auto
qed

lemma parseTextLine_ok:
  assumes inv: "inv p" and h: "currentHeading p \<noteq> root p"
  shows "\<exists>p'. parseTextLine p line = Some (Inr p') \<and> inv p' \<and> root p' = root p
              \<and> currentHeading p' \<noteq> root p'"
proof -
  from inv h have "is_heading (obj (heap p) (currentHeading p))"
    by (auto simp: inv_def heading_cursor_ok_def)
  then obtain t0 tn where "body (obj (heap p) (currentHeading p)) = HeadingNode t0 tn"
    by (auto simp: is_heading_def split: body.splits)
  from ensure_text_root_Inr[OF this] obtain pe cur where
    e: "ensure_text_root p = Inr (pe, cur)" by blast
  from ensure_text_root_inv[OF inv e]
  have ipe: "inv pe" and ct: "currentText pe = Some cur" and rpe: "root pe = root p"
    and hpe: "currentHeading pe = currentHeading p" by simp_all
  define s where "s = heap pe"
  from ipe have wf: "wf_store s" and r0: "roots_level0 s"
    and tc: "text_cursor_ok s (currentHeading pe) (Some cur)"
    by (simp_all add: inv_def s_def ct[symmetric])
  from tc have cur: "cur < next_ref s" by (simp add: text_cursor_ok_def)
  have "\<exists>p'. parseTextLine p line = Some (Inr p') \<and> root p' = root p
              \<and> currentHeading p' = currentHeading p"
  proof (cases "bullet_match line")
    case None
    with e rpe hpe show ?thesis
      by (simp add: parseTextLine_def case_prod_beta)
  next
    case (Some g)
    obtain g1 g2 where g: "g = (g1, g2)" by (cases g)
    define lvl where "lvl = int (length g1) + 1"
    define cr where "cr = (\<lambda>par. TextNode_init (Some par) lvl (parseText g2))"
    have ptl: "parseTextLine p line =
                 (case insert_node s cur lvl cr of
                    None \<Rightarrow> None
                  | Some (Inl e) \<Rightarrow> Some (Inl e)
                  | Some (Inr (n, s')) \<Rightarrow> Some (Inr (pe\<lparr>heap := s', currentText := Some n\<rparr>)))"
      using e Some g
      by (simp add: parseTextLine_def Let_def s_def cr_def lvl_def)
    have l1: "1 \<le> lvl" by (simp add: lvl_def)
    from insert_node_walk[OF wf cur, of lvl cr] insert_node_not_assert[OF wf r0 l1 cur, of cr]
    obtain c where "insert_node s cur lvl cr
                    = Some (Inr (insert_child s c (placed s c lvl cr)))" by blast
    with ptl rpe hpe show ?thesis by (simp add: case_prod_beta)
  qed
  with parseTextLine_step[OF inv, of line] h show ?thesis by auto
qed

text \<open>
  A document whose first line is a heading line, and whose heading lines all have a
  title character after their \<open>=\<close> signs, parses without an error.
\<close>

lemma parseLines_ok:
  assumes "inv p" and "currentHeading p \<noteq> root p"
    and "\<forall>l \<in> set ls. startswith l ''='' \<longrightarrow> heading_match l \<noteq> None"
  shows "\<exists>p'. parseLines p ls = Some (Inr p')"
  using assms
proof (induction ls arbitrary: p)
  case Nil
  show ?case by simp
next
  case (Cons l ls)
  have "\<exists>p'. parseLine p l = Some (Inr p') \<and> inv p' \<and> currentHeading p' \<noteq> root p'"
  proof (cases "startswith l ''=''")
    case True
    with Cons.prems(3) have "heading_match l \<noteq> None" by simp
    from parseHeading_ok[OF Cons.prems(1) this] True show ?thesis
      by (auto simp: parseLine_def)
  next
    case False
    from parseTextLine_ok[OF Cons.prems(1,2), of l] False show ?thesis
      by (auto simp: parseLine_def)
  qed
  then obtain p' where p': "parseLine p l = Some (Inr p')" "inv p'"
    "currentHeading p' \<noteq> root p'" by blast
  from Cons.IH[OF p'(2,3)] Cons.prems(3) p'(1) show ?case by simp
qed

lemma well_formed_document_parses:
  assumes first: "startswith wtex ''=''"
    and titles: "\<forall>l \<in> set (split_lines wtex). startswith l ''='' \<longrightarrow> heading_match l \<noteq> None"
  shows "\<exists>p. parseString Parser_init wtex = Some (Inr p)"
proof -
  obtain l ls where sl: "split_lines wtex = l # ls"
    using split_lines_nonempty[of wtex] by (cases "split_lines wtex") auto
  from first obtain cs where w: "wtex = CHR ''='' # cs" by (cases wtex) auto
  have "startswith l ''=''"
    using sl unfolding w by (auto split: if_splits list.splits)
  with titles sl have "heading_match l \<noteq> None" by simp
  from parseHeading_ok[OF inv_init this] \<open>startswith l ''=''\<close>
  obtain p1 where p1: "parseLine Parser_init l = Some (Inr p1)" "inv p1"
    "currentHeading p1 \<noteq> root p1" by (auto simp: parseLine_def)
  from titles sl have "\<forall>x \<in> set ls. startswith x ''='' \<longrightarrow> heading_match x \<noteq> None" by simp
  from parseLines_ok[OF p1(2,3) this] p1(1) sl show ?thesis
    by (simp add: parseString_def)
qed

end
